theory Spec2Isabelle
  imports Complex_Main "HOL-Library.Sublist"
begin

section \<open>Paths, names and case folding\<close>

text \<open>
  A \<^verbatim>\<open>pathlib.Path\<close> is modelled by the list of its segments. An absolute path
  is the segment list of a root followed by the segments below it, so
  \<^verbatim>\<open>root / rel / name\<close> is \<open>root @ rel @ [name]\<close> and \<^verbatim>\<open>p.relative_to(root)\<close>
  strips the root's segments again. \<^verbatim>\<open>Path(".")\<close> is the empty list.
  The model fixes \<^verbatim>\<open>IS_WINDOWS = False\<close>: \<^verbatim>\<open>_to_long_path\<close>, \<^verbatim>\<open>_long\<close> and
  \<^verbatim>\<open>_short\<close> are then the identity, and \<^verbatim>\<open>resolve()\<close> is taken as the identity
  on the absolute roots of the job.
\<close>

type_synonym path = "string list"

definition bslash :: char where
  "bslash = CHR 0x5C"

definition fslash :: char where
  "fslash = CHR 0x2F"

text \<open>
  A \<^verbatim>\<open>str\<close> is the list of the bytes of its UTF-8 encoding. \<^verbatim>\<open>str.lower()\<close> is
  a function of the library, from strings to strings (it folds the letters of Unicode,
  and how it folds a capital sigma depends on the letters next to it). It is not
  defined here: the functions below that lower a string take it as the parameter \<open>lo\<close>,
  or from the field \<open>str_lower\<close> of the world they run in.
\<close>

text \<open>\<^verbatim>\<open>s.replace("/", "\\")\<close>\<close>

definition replace_slash :: "string \<Rightarrow> string" where
  "replace_slash s = map (\<lambda>c. if c = fslash then bslash else c) s"

text \<open>
  \<^verbatim>\<open>str(p)\<close> for a relative path: the segments joined by the separator, and
  \<^verbatim>\<open>"."\<close> for the empty path.
\<close>

fun join_with :: "char \<Rightarrow> path \<Rightarrow> string" where
  "join_with sep [] = []"
| "join_with sep [a] = a"
| "join_with sep (a # b # r) = a @ sep # join_with sep (b # r)"

definition path_str :: "path \<Rightarrow> string" where
  "path_str p = (if p = [] then ''.'' else join_with fslash p)"

text \<open>\<^verbatim>\<open>SyncPlanner._rel_str\<close>\<close>

definition rel_str :: "(string \<Rightarrow> string) \<Rightarrow> path \<Rightarrow> string" where
  "rel_str lo p = lo (replace_slash (path_str p))"

section \<open>Configuration\<close>

record excludes =
  root_dirs :: "string set"
  recursive_dirs :: "string set"
  file_patterns :: "string list"
  specific_paths :: "string list"

record job_config =
  source_dir :: path
  dest_dir :: path
  excl :: excludes

text \<open>
  The part of \<^verbatim>\<open>JobConfig.from_yaml\<close> that builds the exclude rules from the four
  lists of the \<^verbatim>\<open>excludes\<close> section.
\<close>

definition excludes_from_yaml ::
  "(string \<Rightarrow> string) \<Rightarrow> string list \<Rightarrow> string list \<Rightarrow> string list \<Rightarrow> string list \<Rightarrow>
     excludes" where
  "excludes_from_yaml lo rd rc fp sp =
     \<lparr>root_dirs = set (map lo rd),
      recursive_dirs = set (map lo rc),
      file_patterns = fp,
      specific_paths = map (\<lambda>p. lo (replace_slash p)) sp\<rparr>"

text \<open>\<^verbatim>\<open>SyncPlanner.__init__\<close>: the fields the planner keeps.\<close>

record planner =
  src_root :: path
  dst_root :: path
  root_excl :: "string set"
  rec_excl :: "string set"
  planner_patterns :: "string list"
  specific_excl :: "string list"

definition SyncPlanner :: "(string \<Rightarrow> string) \<Rightarrow> job_config \<Rightarrow> planner" where
  "SyncPlanner lo cfg =
     \<lparr>src_root = source_dir cfg,
      dst_root = dest_dir cfg,
      root_excl = root_dirs (excl cfg),
      rec_excl = recursive_dirs (excl cfg),
      planner_patterns = map lo (file_patterns (excl cfg)),
      specific_excl = specific_paths (excl cfg)\<rparr>"

section \<open>The file system as the planner reads it\<close>

text \<open>
  \<^verbatim>\<open>OSError\<close> values. The code tells \<^verbatim>\<open>PermissionError\<close> from every other
  \<^verbatim>\<open>OSError\<close>, so these are the two kinds; each carries its message.
\<close>

datatype oserr = PermissionError string | OSError string

fun err_text :: "oserr \<Rightarrow> string" where
  "err_text (PermissionError m) = m"
| "err_text (OSError m) = m"

text \<open>
  What \<^verbatim>\<open>os.stat\<close> returns, as far as the code reads it. Times are seconds; a
  time is the real number that the float of \<^verbatim>\<open>os.stat\<close> stands for.
\<close>

record stat =
  st_size :: nat
  st_atime :: real
  st_mtime :: real

text \<open>
  The source tree as \<^verbatim>\<open>os.walk\<close> lists it: a directory has its file names and
  its subdirectory names. \<open>Unwalked\<close> is a name that \<^verbatim>\<open>os.walk\<close> lists among the
  \<^verbatim>\<open>dirnames\<close> of its parent and yields nothing for: a directory whose listing
  fails (\<^verbatim>\<open>os.walk\<close> is called without \<^verbatim>\<open>onerror\<close>, so the error is ignored) or
  a symbolic link to a directory (\<^verbatim>\<open>followlinks\<close> is off).
\<close>

datatype tree = Dir "string list" "(string \<times> tree) list" | Unwalked

text \<open>
  What the program finds outside itself during one run. The first three fields are
  functions of the library: \<^verbatim>\<open>str.lower\<close>, \<^verbatim>\<open>fnmatch.fnmatch\<close> (taking the name
  and the pattern) and the subtraction of two floats, which rounds its result to a
  float. The next four are the calls the planner makes on the file system:
  \<^verbatim>\<open>src_root.exists()\<close>, \<^verbatim>\<open>os.stat\<close> on a source path, \<^verbatim>\<open>dst.exists()\<close> and
  \<^verbatim>\<open>os.stat\<close> on a destination path. \<^verbatim>\<open>Path.exists()\<close> calls \<^verbatim>\<open>stat\<close> and
  answers False when the error says that nothing is at the path; any other
  \<^verbatim>\<open>OSError\<close> (no permission to search a directory on the way, a name too long) it
  raises again, so each of the two tests either answers or raises. The other fields are
  what the applier meets: the bytes \<^verbatim>\<open>shutil.copyfile\<close> reads from a source file,
  the time stamp a freshly written file gets, what \<^verbatim>\<open>os.stat\<close> says of a
  destination directory, and the errors the operating system raises on the single
  operations (permissions, locks, a full disk). A failing copy says whether it had begun
  to write, and what.
\<close>

record world =
  str_lower :: "string \<Rightarrow> string"
  fnmatch :: "string \<Rightarrow> string \<Rightarrow> bool"
  float_sub :: "real \<Rightarrow> real \<Rightarrow> real"
  src_root_exists :: "oserr + bool"
  src_stat :: "path \<Rightarrow> oserr + stat"
  dst_exists :: "path \<Rightarrow> oserr + bool"
  dst_stat :: "path \<Rightarrow> oserr + stat"
  read_src :: "path \<Rightarrow> oserr + string"
  now :: real
  dir_stat :: "path \<Rightarrow> stat"
  mkdir_fault :: "path \<Rightarrow> oserr option"
  copy_fault :: "path \<Rightarrow> path \<Rightarrow> (oserr \<times> string option) option"
  utime_fault :: "path \<Rightarrow> oserr option"
  replace_fault :: "path \<Rightarrow> path \<Rightarrow> oserr option"
  remove_fault :: "path \<Rightarrow> oserr option"

section \<open>The planner\<close>

datatype action = ADD | UPDATE | SKIP | EXCLUDE

record plan_item =
  action :: action
  src :: path
  dst :: path
  reason :: string

definition PlanItem :: "action \<Rightarrow> path \<Rightarrow> path \<Rightarrow> string \<Rightarrow> plan_item" where
  "PlanItem a s d r = \<lparr>action = a, src = s, dst = d, reason = r\<rparr>"

text \<open>The file-system calls behind one item, in the order they are made.\<close>

datatype fs_call = StatSrc path | DstExists path | StatDst path

text \<open>The sign U+2260 of the reasons, in UTF-8.\<close>

definition neq_sign :: string where
  "neq_sign = [CHR 0xE2, CHR 0x89, CHR 0xA0]"

text \<open>
  What one turn of the loop over \<^verbatim>\<open>filenames\<close> leaves behind: the item it appends
  to the plan, or the exception that leaves \<^verbatim>\<open>plan\<close> from it; either with the calls
  made on the file system in that turn.
\<close>

type_synonym step = "(oserr \<times> fs_call list) + (plan_item \<times> fs_call list)"

text \<open>
  \<^verbatim>\<open>SyncPlanner._decide\<close>, with the calls it made. The two \<^verbatim>\<open>os.stat\<close> calls are
  inside a \<^verbatim>\<open>try\<close>; \<^verbatim>\<open>dst.exists()\<close> is not, and what it raises leaves the
  function.
\<close>

definition decide ::
  "world \<Rightarrow> path \<Rightarrow> path \<Rightarrow> (oserr \<times> fs_call list) + ((action \<times> string) \<times> fs_call list)" where
  "decide w s d =
     (case src_stat w s of
        Inl e \<Rightarrow> Inr ((EXCLUDE, ''unreadable: '' @ err_text e), [StatSrc s])
      | Inr s_stat \<Rightarrow>
          (case dst_exists w d of
             Inl e \<Rightarrow> Inl (e, [StatSrc s, DstExists d])
           | Inr found \<Rightarrow>
               if \<not> found then Inr ((ADD, ''missing''), [StatSrc s, DstExists d])
               else
                 (case dst_stat w d of
                    Inl e \<Rightarrow>
                      Inr ((UPDATE, ''dst unreadable: '' @ err_text e),
                           [StatSrc s, DstExists d, StatDst d])
                  | Inr d_stat \<Rightarrow>
                      (let size_same = (st_size s_stat = st_size d_stat);
                           mtime_same =
                             (\<bar>float_sub w (st_mtime s_stat) (st_mtime d_stat)\<bar> \<le> 2)
                       in if size_same \<and> mtime_same
                          then Inr ((SKIP, ''same size+mtime''),
                                    [StatSrc s, DstExists d, StatDst d])
                          else Inr ((UPDATE,
                                     ''size '' @ (if size_same then ''='' else neq_sign) @
                                     '', mtime '' @ (if mtime_same then ''='' else neq_sign)),
                                    [StatSrc s, DstExists d, StatDst d])))))"

text \<open>\<^verbatim>\<open>SyncPlanner._is_file_excluded\<close>\<close>

definition is_file_excluded :: "planner \<Rightarrow> world \<Rightarrow> string \<Rightarrow> bool" where
  "is_file_excluded P w name =
     list_ex (\<lambda>pat. fnmatch w (str_lower w name) pat) (planner_patterns P)"

text \<open>\<^verbatim>\<open>SyncPlanner._is_under_specific\<close>\<close>

definition is_under_specific :: "planner \<Rightarrow> world \<Rightarrow> path \<Rightarrow> bool" where
  "is_under_specific P w rel_dir =
     (if specific_excl P = [] then False
      else list_ex (\<lambda>sp. rel_str (str_lower w) rel_dir = sp \<or>
                         prefix (sp @ [bslash]) (rel_str (str_lower w) rel_dir))
             (specific_excl P))"

text \<open>
  The two partition loops of \<^verbatim>\<open>plan\<close>: the names kept and the names removed, each
  in the order of \<^verbatim>\<open>dirnames\<close>.
\<close>

definition partition_names ::
  "(string \<Rightarrow> string) \<Rightarrow> string set \<Rightarrow> string list \<Rightarrow> string list \<times> string list" where
  "partition_names lo ex dirnames =
     (filter (\<lambda>n. lo n \<notin> ex) dirnames, filter (\<lambda>n. lo n \<in> ex) dirnames)"

text \<open>The body of the loop over \<^verbatim>\<open>filenames\<close>: one turn, for one file.\<close>

definition file_item :: "planner \<Rightarrow> world \<Rightarrow> path \<Rightarrow> string \<Rightarrow> step" where
  "file_item P w rel_dir fname =
     (let src_file = src_root P @ rel_dir @ [fname];
          dst_file = dst_root P @ rel_dir @ [fname]
      in if is_file_excluded P w fname
         then Inr (PlanItem EXCLUDE src_file dst_file ''pattern'', [])
         else (case decide w src_file dst_file of
                 Inl (e, calls) \<Rightarrow> Inl (e, calls)
               | Inr ((act, rsn), calls) \<Rightarrow> Inr (PlanItem act src_file dst_file rsn, calls)))"

text \<open>
  The body of the loop of \<^verbatim>\<open>plan\<close> for one triple that \<^verbatim>\<open>os.walk\<close> yields: what
  its turns leave, in order, and \<^verbatim>\<open>dirnames\<close> as the body leaves it.
\<close>

definition visit ::
  "planner \<Rightarrow> world \<Rightarrow> path \<Rightarrow> string list \<Rightarrow> string list \<Rightarrow> step list \<times> string list" where
  "visit P w rel_dir dirnames filenames =
     (if is_under_specific P w rel_dir
      then ([Inr (PlanItem EXCLUDE (src_root P @ rel_dir) (dst_root P @ rel_dir)
                    ''specific_path'', [])],
            [])
      else
        (let (keep1, removed1) =
               (if rel_dir = [] then partition_names (str_lower w) (root_excl P) dirnames
                else (dirnames, []));
             items1 =
               map (\<lambda>r. Inr (PlanItem EXCLUDE (src_root P @ rel_dir @ [r]) (dst_root P @ [r])
                                ''root_dir'', [])) removed1;
             (keep2, removed2) =
               (if keep1 \<noteq> [] then partition_names (str_lower w) (rec_excl P) keep1
                else (keep1, []));
             items2 =
               map (\<lambda>r. Inr (PlanItem EXCLUDE (src_root P @ rel_dir @ [r])
                                (dst_root P @ rel_dir @ [r]) ''recursive_dir'', [])) removed2;
             items3 = map (file_item P w rel_dir) filenames
         in (items1 @ items2 @ items3, keep2)))"

text \<open>
  \<^verbatim>\<open>os.walk\<close> top-down, driving the body: the directory itself first, then the
  subdirectories whose names the body left in \<^verbatim>\<open>dirnames\<close>, in their order.
  (The names of one directory are distinct, so going through the subdirectories and
  keeping those whose name is left is going through the names left.) The planner reads
  the file system and writes nothing, so what a turn leaves does not depend on the turns
  before it: \<open>walk\<close> lists what every turn leaves, and \<open>run_steps\<close> below cuts the
  list at the first exception.
\<close>

fun walk :: "planner \<Rightarrow> world \<Rightarrow> path \<Rightarrow> tree \<Rightarrow> step list" where
  "walk P w rel_dir Unwalked = []"
| "walk P w rel_dir (Dir filenames subdirs) =
     (case visit P w rel_dir (map fst subdirs) filenames of
        (steps, keep) \<Rightarrow>
          steps @
          concat (map (\<lambda>(n, t). if n \<in> set keep then walk P w (rel_dir @ [n]) t else []) subdirs))"

text \<open>
  The turns in order: the first exception ends \<^verbatim>\<open>plan\<close> and the items appended so
  far are lost with it; without one, the items are the plan.
\<close>

fun run_steps :: "step list \<Rightarrow> oserr + (plan_item \<times> fs_call list) list" where
  "run_steps [] = Inr []"
| "run_steps (Inl (e, calls) # ss) = Inl e"
| "run_steps (Inr x # ss) =
     (case run_steps ss of
        Inl e \<Rightarrow> Inl e
      | Inr xs \<Rightarrow> Inr (x # xs))"

text \<open>
  How \<^verbatim>\<open>plan\<close> can end without a plan: with its own \<^verbatim>\<open>FileNotFoundError\<close> for the
  source root, or with an \<^verbatim>\<open>OSError\<close> that one of the \<^verbatim>\<open>exists()\<close> tests raised.
\<close>

datatype plan_error = SourceNotFound path | Raised oserr

text \<open>\<^verbatim>\<open>SyncPlanner.plan\<close>, each item with the calls made for it.\<close>

definition plan_calls ::
  "planner \<Rightarrow> world \<Rightarrow> tree \<Rightarrow> plan_error + (plan_item \<times> fs_call list) list" where
  "plan_calls P w t =
     (case src_root_exists w of
        Inl e \<Rightarrow> Inl (Raised e)
      | Inr found \<Rightarrow>
          if \<not> found then Inl (SourceNotFound (src_root P))
          else (case run_steps (walk P w [] t) of
                  Inl e \<Rightarrow> Inl (Raised e)
                | Inr xs \<Rightarrow> Inr xs))"

text \<open>\<^verbatim>\<open>SyncPlanner.plan\<close>\<close>

definition plan :: "planner \<Rightarrow> world \<Rightarrow> tree \<Rightarrow> plan_error + plan_item list" where
  "plan P w t =
     (case plan_calls P w t of Inl e \<Rightarrow> Inl e | Inr xs \<Rightarrow> Inr (map fst xs))"

section \<open>The destination file system and the applier\<close>

text \<open>
  The destination is a map from absolute paths to nodes; the empty path is the root of
  the file system, a directory that is always there. The source is read through
  \<open>read_src\<close> and \<open>src_stat\<close> only and is never written: source and destination are
  taken to be disjoint.
\<close>

datatype node = File string real real | Directory

type_synonym fs = "path \<Rightarrow> node option"

definition node_at :: "fs \<Rightarrow> path \<Rightarrow> node option" where
  "node_at f p = (if p = [] then Some Directory else f p)"

text \<open>\<^verbatim>\<open>os.path.exists\<close>\<close>

definition path_exists :: "fs \<Rightarrow> path \<Rightarrow> bool" where
  "path_exists f p \<longleftrightarrow> node_at f p \<noteq> None"

text \<open>\<^verbatim>\<open>it.dst.parent\<close>\<close>

definition parent :: "path \<Rightarrow> path" where
  "parent d = butlast d"

text \<open>
  \<^verbatim>\<open>it.dst.with_suffix(it.dst.suffix + ".part")\<close>: the old suffix is replaced by
  itself followed by \<^verbatim>\<open>.part\<close>, so the name gets \<^verbatim>\<open>.part\<close> appended. (The
  destination of a file is never the root of the file system, the one path without a
  name.)
\<close>

definition temp_path :: "path \<Rightarrow> path" where
  "temp_path d = butlast d @ [last d @ ''.part'']"

text \<open>\<^verbatim>\<open>os.mkdir\<close> once its parent is a directory and nothing is at the path.\<close>

definition os_mkdir :: "world \<Rightarrow> fs \<Rightarrow> path \<Rightarrow> oserr option \<times> fs" where
  "os_mkdir w f p =
     (case mkdir_fault w p of
        Some e \<Rightarrow> (Some e, f)
      | None \<Rightarrow> (None, f(p \<mapsto> Directory)))"

text \<open>
  \<^verbatim>\<open>Path.mkdir(parents=True, exist_ok=True)\<close>, on the reversed path so that the
  recursion on the parent is structural: an existing directory is accepted, a file in
  the way is an error, a missing parent is created first.
\<close>

fun mkdir_rev :: "world \<Rightarrow> fs \<Rightarrow> path \<Rightarrow> oserr option \<times> fs" where
  "mkdir_rev w f [] = (None, f)"
| "mkdir_rev w f (s # rp) =
     (case node_at f (rev (s # rp)) of
        Some Directory \<Rightarrow> (None, f)
      | Some (File c a m) \<Rightarrow> (Some (OSError ''File exists''), f)
      | None \<Rightarrow>
          (case node_at f (rev rp) of
             Some Directory \<Rightarrow> os_mkdir w f (rev (s # rp))
           | Some (File c a m) \<Rightarrow> (Some (OSError ''Not a directory''), f)
           | None \<Rightarrow>
               (case mkdir_rev w f rp of
                  (Some e, f') \<Rightarrow> (Some e, f')
                | (None, f') \<Rightarrow> os_mkdir w f' (rev (s # rp)))))"

definition mkdir_parents :: "world \<Rightarrow> fs \<Rightarrow> path \<Rightarrow> oserr option \<times> fs" where
  "mkdir_parents w f p = mkdir_rev w f (rev p)"

text \<open>
  \<^verbatim>\<open>shutil.copyfile(src, temp)\<close>: the source is opened and read, the target is
  opened for writing (truncating a file that is there), the bytes are written.
\<close>

definition copyfile :: "world \<Rightarrow> fs \<Rightarrow> path \<Rightarrow> path \<Rightarrow> oserr option \<times> fs" where
  "copyfile w f s t =
     (case read_src w s of
        Inl e \<Rightarrow> (Some e, f)
      | Inr bytes \<Rightarrow>
          if node_at f t = Some Directory then (Some (OSError ''Is a directory''), f)
          else if node_at f (parent t) \<noteq> Some Directory
          then (Some (OSError ''No such file or directory''), f)
          else
            (case copy_fault w s t of
               Some (e, None) \<Rightarrow> (Some e, f)
             | Some (e, Some written) \<Rightarrow> (Some e, f(t \<mapsto> File written (now w) (now w)))
             | None \<Rightarrow> (None, f(t \<mapsto> File bytes (now w) (now w)))))"

text \<open>\<^verbatim>\<open>os.utime(temp, (atime, mtime))\<close>\<close>

definition utime :: "world \<Rightarrow> fs \<Rightarrow> path \<Rightarrow> real \<Rightarrow> real \<Rightarrow> oserr option \<times> fs" where
  "utime w f t a m =
     (case utime_fault w t of
        Some e \<Rightarrow> (Some e, f)
      | None \<Rightarrow>
          (case node_at f t of
             Some (File c a0 m0) \<Rightarrow> (None, f(t \<mapsto> File c a m))
           | Some Directory \<Rightarrow> (None, f)
           | None \<Rightarrow> (Some (OSError ''No such file or directory''), f)))"

text \<open>\<^verbatim>\<open>os.replace(temp, dst)\<close>: one step, the file is at one name or at the other.\<close>

definition replace :: "world \<Rightarrow> fs \<Rightarrow> path \<Rightarrow> path \<Rightarrow> oserr option \<times> fs" where
  "replace w f t d =
     (case replace_fault w t d of
        Some e \<Rightarrow> (Some e, f)
      | None \<Rightarrow>
          (case node_at f t of
             Some (File c a m) \<Rightarrow>
               if node_at f d = Some Directory then (Some (OSError ''Is a directory''), f)
               else (None, (f(t := None))(d \<mapsto> File c a m))
           | Some Directory \<Rightarrow> (Some (OSError ''Is a directory''), f)
           | None \<Rightarrow> (Some (OSError ''No such file or directory''), f)))"

text \<open>\<^verbatim>\<open>os.remove(temp)\<close>\<close>

definition remove :: "world \<Rightarrow> fs \<Rightarrow> path \<Rightarrow> oserr option \<times> fs" where
  "remove w f t =
     (case remove_fault w t of
        Some e \<Rightarrow> (Some e, f)
      | None \<Rightarrow>
          (case node_at f t of
             Some (File c a m) \<Rightarrow> (None, f(t := None))
           | Some Directory \<Rightarrow> (Some (OSError ''Is a directory''), f)
           | None \<Rightarrow> (Some (OSError ''No such file or directory''), f)))"

text \<open>
  The two lines under \<^verbatim>\<open>if self.preserve_mtime\<close>: \<^verbatim>\<open>os.stat\<close> on the source,
  then \<^verbatim>\<open>os.utime\<close> on the temporary file with the source's access and modification
  times.
\<close>

definition preserve_times ::
  "world \<Rightarrow> bool \<Rightarrow> fs \<Rightarrow> path \<Rightarrow> path \<Rightarrow> oserr option \<times> fs" where
  "preserve_times w preserve_mtime f s t =
     (if preserve_mtime
      then (case src_stat w s of
              Inl e \<Rightarrow> (Some e, f)
            | Inr s_stat \<Rightarrow> utime w f t (st_atime s_stat) (st_mtime s_stat))
      else (None, f))"

text \<open>
  The body of the \<^verbatim>\<open>try\<close> of \<^verbatim>\<open>SyncApplier.apply\<close>: copy, time stamps when
  \<^verbatim>\<open>preserve_mtime\<close> is set, rename. The first error ends it.
\<close>

definition copy_steps ::
  "world \<Rightarrow> bool \<Rightarrow> fs \<Rightarrow> path \<Rightarrow> path \<Rightarrow> path \<Rightarrow> oserr option \<times> fs" where
  "copy_steps w preserve_mtime f s t d =
     (case copyfile w f s t of
        (Some e, f1) \<Rightarrow> (Some e, f1)
      | (None, f1) \<Rightarrow>
          (case preserve_times w preserve_mtime f1 s t of
             (Some e, f2) \<Rightarrow> (Some e, f2)
           | (None, f2) \<Rightarrow> replace w f2 t d))"

text \<open>
  The body of either \<^verbatim>\<open>except\<close> clause (the two are the same): the error that
  leaves the clause, and the destination afterwards. A bare \<^verbatim>\<open>raise\<close> re-raises the
  exception being handled where it stands, and this one stands in a \<^verbatim>\<open>finally\<close>
  block: when \<^verbatim>\<open>os.remove\<close> has raised, the exception on its way through the
  block is that of \<^verbatim>\<open>os.remove\<close> (the error of the copy is its context), and it is
  the one raised; when the clean-up went through, it is the error of the copy.
\<close>

definition cleanup :: "world \<Rightarrow> fs \<Rightarrow> path \<Rightarrow> oserr \<Rightarrow> oserr \<times> fs" where
  "cleanup w f t e =
     (if path_exists f t
      then (case remove w f t of
              (Some e2, f') \<Rightarrow> (e2, f')
            | (None, f') \<Rightarrow> (e, f'))
      else (e, f))"

text \<open>
  One turn of the loop of \<^verbatim>\<open>SyncApplier.apply\<close>: the error that leaves the loop, if
  any, and the destination afterwards.
\<close>

definition apply_item :: "world \<Rightarrow> bool \<Rightarrow> fs \<Rightarrow> plan_item \<Rightarrow> oserr option \<times> fs" where
  "apply_item w preserve_mtime f it =
     (if action it = SKIP \<or> action it = EXCLUDE then (None, f)
      else
        (case mkdir_parents w f (parent (dst it)) of
           (Some e, f0) \<Rightarrow> (Some e, f0)
         | (None, f0) \<Rightarrow>
             (case copy_steps w preserve_mtime f0 (src it) (temp_path (dst it)) (dst it) of
                (None, f1) \<Rightarrow> (None, f1)
              | (Some (PermissionError m), f1) \<Rightarrow>
                  (case cleanup w f1 (temp_path (dst it)) (PermissionError m) of
                     (e, f2) \<Rightarrow> (Some e, f2))
              | (Some (OSError m), f1) \<Rightarrow>
                  (case cleanup w f1 (temp_path (dst it)) (OSError m) of
                     (e, f2) \<Rightarrow> (Some e, f2)))))"

text \<open>\<^verbatim>\<open>SyncApplier.apply\<close>: the items in order, up to the first error.\<close>

fun apply_plan :: "world \<Rightarrow> bool \<Rightarrow> plan_item list \<Rightarrow> fs \<Rightarrow> oserr option \<times> fs" where
  "apply_plan w preserve_mtime [] f = (None, f)"
| "apply_plan w preserve_mtime (it # its) f =
     (case apply_item w preserve_mtime f it of
        (Some e, f') \<Rightarrow> (Some e, f')
      | (None, f') \<Rightarrow> apply_plan w preserve_mtime its f')"

text \<open>
  The end of \<^verbatim>\<open>main\<close> under \<^verbatim>\<open>--apply\<close>: the items handed to the applier, and
  what the process prints last and exits with.
\<close>

definition to_apply :: "plan_item list \<Rightarrow> plan_item list" where
  "to_apply items = filter (\<lambda>it. action it = ADD \<or> action it = UPDATE) items"

definition main_apply :: "world \<Rightarrow> plan_item list \<Rightarrow> fs \<Rightarrow> (string \<times> nat) \<times> fs" where
  "main_apply w items f =
     (case apply_plan w True (to_apply items) f of
        (Some (PermissionError m), f') \<Rightarrow>
          ((''Copy aborted (permission/lock error): '' @ m, 1), f')
      | (Some (OSError m), f') \<Rightarrow> ((''Copy aborted (I/O error): '' @ m, 1), f')
      | (None, f') \<Rightarrow> ((''Apply complete.'', 0), f'))"

text \<open>
  The planner's view of a destination that can be read: \<^verbatim>\<open>exists()\<close> answers,
  with True when a node is there, and \<^verbatim>\<open>os.stat\<close> gives the length and the times of
  a file.
\<close>

definition observe :: "fs \<Rightarrow> world \<Rightarrow> world" where
  "observe f w =
     w\<lparr>dst_exists := (\<lambda>p. Inr (path_exists f p)),
       dst_stat := (\<lambda>p. case node_at f p of
                           Some (File c a m) \<Rightarrow> Inr \<lparr>st_size = length c, st_atime = a, st_mtime = m\<rparr>
                         | Some Directory \<Rightarrow> Inr (dir_stat w p)
                         | None \<Rightarrow> Inl (OSError ''No such file or directory''))\<rparr>"

section \<open>Notions the properties are stated with\<close>

text \<open>A name survives both partition loops of the directory \<open>rel_dir\<close>.\<close>

definition kept :: "planner \<Rightarrow> world \<Rightarrow> path \<Rightarrow> string \<Rightarrow> bool" where
  "kept P w rel_dir n \<longleftrightarrow>
     \<not> (rel_dir = [] \<and> str_lower w n \<in> root_excl P) \<and> str_lower w n \<notin> rec_excl P"

text \<open>
  \<open>reach P w rel_dir t q\<close> is the subtree \<^verbatim>\<open>os.walk\<close> arrives at when it follows the
  names \<open>q\<close> down from the directory \<open>rel_dir\<close> with tree \<open>t\<close>, if every directory on
  the way is listed, passes the path-prefix check and keeps the next name.
\<close>

fun reach :: "planner \<Rightarrow> world \<Rightarrow> path \<Rightarrow> tree \<Rightarrow> path \<Rightarrow> tree option" where
  "reach P w rel_dir t [] = Some t"
| "reach P w rel_dir Unwalked (n # q) = None"
| "reach P w rel_dir (Dir filenames subdirs) (n # q) =
     (if \<not> is_under_specific P w rel_dir \<and> kept P w rel_dir n
      then (case map_of subdirs n of
              Some t \<Rightarrow> reach P w (rel_dir @ [n]) t q
            | None \<Rightarrow> None)
      else None)"

text \<open>A name without a separator in it: a single segment of a path.\<close>

definition sep_free :: "string \<Rightarrow> bool" where
  "sep_free n \<longleftrightarrow> bslash \<notin> set n \<and> fslash \<notin> set n"

text \<open>The names in one directory are distinct, all the way down.\<close>

fun wf_tree :: "tree \<Rightarrow> bool" where
  "wf_tree Unwalked = True"
| "wf_tree (Dir filenames subdirs) =
     (distinct (filenames @ map fst subdirs) \<and> list_all (\<lambda>(n, t). wf_tree t) subdirs)"

fun call_path :: "fs_call \<Rightarrow> path" where
  "call_path (StatSrc p) = p"
| "call_path (DstExists p) = p"
| "call_path (StatDst p) = p"

text \<open>The items among the steps, and the calls of a step.\<close>

fun items_of :: "step list \<Rightarrow> (plan_item \<times> fs_call list) list" where
  "items_of [] = []"
| "items_of (Inl y # ss) = items_of ss"
| "items_of (Inr x # ss) = x # items_of ss"

fun step_calls :: "step \<Rightarrow> fs_call list" where
  "step_calls (Inl (e, calls)) = calls"
| "step_calls (Inr (it, calls)) = calls"

text \<open>
  What the segment-wise reading of the path-prefix check needs of the lowering
  function: a backslash is lowered to itself and lowering produces none, what stands on
  either side of a backslash is lowered on its own, and \<^verbatim>\<open>"."\<close> is what
  \<^verbatim>\<open>"."\<close> alone is lowered to. (\<^verbatim>\<open>str.lower\<close> maps character by
  character, but for the capital sigma, which it maps by looking at the cased letters
  around it; a backslash is not a letter and ends that look.)
\<close>

definition lowers_by_segment :: "(string \<Rightarrow> string) \<Rightarrow> bool" where
  "lowers_by_segment lo \<longleftrightarrow>
     (\<forall>a b. lo (a @ bslash # b) = lo a @ bslash # lo b) \<and>
     (\<forall>n. bslash \<notin> set n \<longrightarrow> bslash \<notin> set (lo n)) \<and>
     (\<forall>n. lo n = ''.'' \<longleftrightarrow> n = ''.'')"

text \<open>The three items for a pruned directory.\<close>

definition root_item :: "planner \<Rightarrow> string \<Rightarrow> plan_item \<times> fs_call list" where
  "root_item P r = (PlanItem EXCLUDE (src_root P @ [r]) (dst_root P @ [r]) ''root_dir'', [])"

definition rec_item :: "planner \<Rightarrow> path \<Rightarrow> string \<Rightarrow> plan_item \<times> fs_call list" where
  "rec_item P rel_dir r =
     (PlanItem EXCLUDE (src_root P @ rel_dir @ [r]) (dst_root P @ rel_dir @ [r]) ''recursive_dir'',
      [])"

definition specific_item :: "planner \<Rightarrow> path \<Rightarrow> plan_item \<times> fs_call list" where
  "specific_item P rel_dir =
     (PlanItem EXCLUDE (src_root P @ rel_dir) (dst_root P @ rel_dir) ''specific_path'', [])"

text \<open>
  Going down the names \<open>q\<close> from \<open>rel_dir\<close>, every directory passes the path-prefix
  check and keeps the next name.
\<close>

fun open_from :: "planner \<Rightarrow> world \<Rightarrow> path \<Rightarrow> path \<Rightarrow> bool" where
  "open_from P w rel_dir [] = True"
| "open_from P w rel_dir (n # q) =
     (\<not> is_under_specific P w rel_dir \<and> kept P w rel_dir n \<and> open_from P w (rel_dir @ [n]) q)"

text \<open>What a turn of the loop body can leave while it is at the directory \<open>r\<close>.\<close>

definition emitted_at :: "planner \<Rightarrow> world \<Rightarrow> path \<Rightarrow> step \<Rightarrow> bool" where
  "emitted_at P w r s \<longleftrightarrow>
     (if is_under_specific P w r then s = Inr (specific_item P r)
      else (\<exists>n. r = [] \<and> str_lower w n \<in> root_excl P \<and> s = Inr (root_item P n)) \<or>
           (\<exists>n. \<not> (r = [] \<and> str_lower w n \<in> root_excl P) \<and> str_lower w n \<in> rec_excl P \<and>
                s = Inr (rec_item P r n)) \<or>
           (\<exists>f. s = file_item P w r f))"

section \<open>A worked example\<close>

text \<open>
  The examples are written in ASCII, where \<^verbatim>\<open>str.lower\<close> maps the capital letters
  to the small ones and leaves every other character as it is.
\<close>

definition ascii_lower_char :: "char \<Rightarrow> char" where
  "ascii_lower_char c =
     (case map_of (zip ''ABCDEFGHIJKLMNOPQRSTUVWXYZ'' ''abcdefghijklmnopqrstuvwxyz'') c of
        Some l \<Rightarrow> l
      | None \<Rightarrow> c)"

definition ascii_lower :: "string \<Rightarrow> string" where
  "ascii_lower s = map ascii_lower_char s"

text \<open>
  A stand-in for \<^verbatim>\<open>fnmatch\<close> in the examples: patterns of literal characters,
  \<^verbatim>\<open>*\<close> and \<^verbatim>\<open>?\<close>.
\<close>

fun glob :: "string \<Rightarrow> string \<Rightarrow> bool" where
  "glob [] s = (s = [])"
| "glob (p # ps) [] = (p = CHR ''*'' \<and> glob ps [])"
| "glob (p # ps) (c # cs) =
     (if p = CHR ''*'' then glob ps (c # cs) \<or> glob (p # ps) cs
      else (p = CHR ''?'' \<or> p = c) \<and> glob ps cs)"

text \<open>
  A job with one rule of each kind, written in mixed case, and a source tree in which
  each rule meets a directory or a file, at the root and below it.
\<close>

definition ex_cfg :: job_config where
  "ex_cfg =
     \<lparr>source_dir = [''srv'', ''app''],
      dest_dir = [''mirror''],
      excl = excludes_from_yaml ascii_lower
               [''Node_Modules''] [''__pycache__''] [''*.O''] [''Scripts/Output'']\<rparr>"

definition ex_planner :: planner where
  "ex_planner = SyncPlanner ascii_lower ex_cfg"

definition ex_tree :: tree where
  "ex_tree =
     Dir [''a.txt'', ''b.txt'']
       [(''node_modules'', Dir [''x.js''] []),
        (''scripts'',
           Dir []
             [(''output'', Dir [''log.txt''] [(''logs'', Dir [''l.txt''] [])]),
              (''output2'', Dir [''keep.txt''] [])]),
        (''build'',
           Dir [''tmp.o'']
             [(''__PyCache__'', Dir [''c.pyc''] []),
              (''node_modules'', Dir [''n.js''] [])])]"

text \<open>
  No operation fails but \<^verbatim>\<open>os.stat\<close> on \<^verbatim>\<open>b.txt\<close>; \<^verbatim>\<open>a.txt\<close> is at the
  destination already, with the same size and a time stamp two seconds later. The time
  stamps of the examples are small whole numbers, which floats subtract exactly.
\<close>

definition ex_world :: world where
  "ex_world =
     \<lparr>str_lower = ascii_lower,
      fnmatch = (\<lambda>name pat. glob pat name),
      float_sub = (\<lambda>a b. a - b),
      src_root_exists = Inr True,
      src_stat = (\<lambda>p. if last p = ''b.txt'' then Inl (PermissionError ''denied'')
                        else if last p = ''a.txt''
                        then Inr \<lparr>st_size = 5, st_atime = 10, st_mtime = 100\<rparr>
                        else Inr \<lparr>st_size = 3, st_atime = 20, st_mtime = 50\<rparr>),
      dst_exists = (\<lambda>p. Inr (p = [''mirror'', ''a.txt''])),
      dst_stat = (\<lambda>p. Inr \<lparr>st_size = 5, st_atime = 0, st_mtime = 102\<rparr>),
      read_src = (\<lambda>p. if last p = ''a.txt'' then Inr ''hello'' else Inr ''abc''),
      now = 1000,
      dir_stat = (\<lambda>p. \<lparr>st_size = 4096, st_atime = 0, st_mtime = 0\<rparr>),
      mkdir_fault = (\<lambda>p. None),
      copy_fault = (\<lambda>s t. None),
      utime_fault = (\<lambda>p. None),
      replace_fault = (\<lambda>t d. None),
      remove_fault = (\<lambda>p. None)\<rparr>"

definition ex_items :: "plan_item list" where
  "ex_items =
     [PlanItem EXCLUDE [''srv'', ''app'', ''node_modules''] [''mirror'', ''node_modules'']
        ''root_dir'',
      PlanItem SKIP [''srv'', ''app'', ''a.txt''] [''mirror'', ''a.txt''] ''same size+mtime'',
      PlanItem EXCLUDE [''srv'', ''app'', ''b.txt''] [''mirror'', ''b.txt'']
        ''unreadable: denied'',
      PlanItem EXCLUDE [''srv'', ''app'', ''scripts'', ''output'']
        [''mirror'', ''scripts'', ''output''] ''specific_path'',
      PlanItem ADD [''srv'', ''app'', ''scripts'', ''output2'', ''keep.txt'']
        [''mirror'', ''scripts'', ''output2'', ''keep.txt''] ''missing'',
      PlanItem EXCLUDE [''srv'', ''app'', ''build'', ''__PyCache__'']
        [''mirror'', ''build'', ''__PyCache__''] ''recursive_dir'',
      PlanItem EXCLUDE [''srv'', ''app'', ''build'', ''tmp.o''] [''mirror'', ''build'', ''tmp.o'']
        ''pattern'',
      PlanItem ADD [''srv'', ''app'', ''build'', ''node_modules'', ''n.js'']
        [''mirror'', ''build'', ''node_modules'', ''n.js''] ''missing'']"

text \<open>A job that lists the same name as a root-only and as a recursive exclude.\<close>

definition overlap_cfg :: job_config where
  "overlap_cfg =
     \<lparr>source_dir = [''srv'', ''app''],
      dest_dir = [''mirror''],
      excl = excludes_from_yaml ascii_lower [''build''] [''build''] [] []\<rparr>"

definition overlap_tree :: tree where
  "overlap_tree = Dir [] [(''build'', Dir [''out.bin''] [])]"

text \<open>A source root whose one subdirectory cannot be listed.\<close>

definition unlisted_tree :: tree where
  "unlisted_tree = Dir [] [(''secret'', Unwalked)]"

text \<open>
  The source tree of the job above when \<^verbatim>\<open>scripts/output\<close> is a symbolic link to a
  directory: \<^verbatim>\<open>os.walk\<close> lists the name in \<^verbatim>\<open>scripts\<close> and does not follow it.
\<close>

definition linked_tree :: tree where
  "linked_tree = Dir [] [(''scripts'', Dir [] [(''output'', Unwalked)])]"

text \<open>
  The destination directory cannot be searched: \<^verbatim>\<open>stat\<close> on anything in it is
  refused, so \<^verbatim>\<open>dst.exists()\<close> raises and \<^verbatim>\<open>os.stat\<close> on the destination
  fails.
\<close>

definition denied_world :: world where
  "denied_world =
     ex_world\<lparr>dst_exists := (\<lambda>p. Inl (PermissionError ''Permission denied'')),
              dst_stat := (\<lambda>p. Inl (PermissionError ''Permission denied''))\<rparr>"

text \<open>A job whose destination root lies in a directory that does not exist yet.\<close>

definition deep_cfg :: job_config where
  "deep_cfg =
     \<lparr>source_dir = [''srv'', ''app''],
      dest_dir = [''x'', ''mirror''],
      excl = excludes_from_yaml ascii_lower [] [] [] []\<rparr>"

definition single_tree :: tree where
  "single_tree = Dir [''a.txt''] []"

text \<open>
  One file to add into an empty destination, on a disk that fills up while the copy is
  being written; in the second world the removal of the temporary file is refused as
  well.
\<close>

definition keep_item :: plan_item where
  "keep_item =
     PlanItem ADD [''srv'', ''app'', ''scripts'', ''output2'', ''keep.txt'']
       [''mirror'', ''scripts'', ''output2'', ''keep.txt''] ''missing''"

definition full_disk_world :: world where
  "full_disk_world =
     ex_world\<lparr>copy_fault := (\<lambda>s t. Some (OSError ''No space left on device'', Some ''ab''))\<rparr>"

definition locked_world :: world where
  "locked_world =
     full_disk_world\<lparr>remove_fault := (\<lambda>p. Some (PermissionError ''Access is denied''))\<rparr>"

text \<open>Every rename onto the destination is refused: another process holds the files.\<close>

definition locked_dst_world :: world where
  "locked_dst_world =
     ex_world\<lparr>replace_fault := (\<lambda>t d. Some (PermissionError ''Access is denied''))\<rparr>"

text \<open>The same, and the removal of the temporary file fails with an error of the device.\<close>

definition stuck_world :: world where
  "stuck_world =
     locked_dst_world\<lparr>remove_fault := (\<lambda>p. Some (OSError ''Input/output error''))\<rparr>"

text \<open>
  A source directory that holds a file and, listed before it, a file of the same name
  with \<^verbatim>\<open>.part\<close> appended; no exclude rules; an empty destination.
\<close>

definition part_cfg :: job_config where
  "part_cfg =
     \<lparr>source_dir = [''srv'', ''app''],
      dest_dir = [''mirror''],
      excl = excludes_from_yaml ascii_lower [] [] [] []\<rparr>"

definition part_tree :: tree where
  "part_tree = Dir [''a.txt.part'', ''a.txt''] []"

definition part_items :: "plan_item list" where
  "part_items =
     [PlanItem ADD [''srv'', ''app'', ''a.txt.part''] [''mirror'', ''a.txt.part''] ''missing'',
      PlanItem ADD [''srv'', ''app'', ''a.txt''] [''mirror'', ''a.txt''] ''missing'']"

section \<open>The traversal, one directory at a time\<close>

lemma items_of_append [simp]: "items_of (a @ b) = items_of a @ items_of b"
  by (induction a rule: items_of.induct) auto

lemma items_of_map_Inr [simp]: "items_of (map (\<lambda>n. Inr (g n)) xs) = map g xs"
  by (induction xs) auto

lemma items_of_concat: "items_of (concat (map f cs)) = concat (map (\<lambda>c. items_of (f c)) cs)"
  by (induction cs) auto

lemma set_items_of: "x \<in> set (items_of ss) \<longleftrightarrow> Inr x \<in> set ss"
  by (induction ss rule: items_of.induct) auto

lemma run_steps_Inr: "run_steps ss = Inr xs \<Longrightarrow> ss = map Inr xs"
  by (induction ss arbitrary: xs rule: run_steps.induct) (auto split: sum.splits)

lemma run_steps_items: "run_steps ss = Inr xs \<Longrightarrow> xs = items_of ss"
  by (induction ss arbitrary: xs rule: run_steps.induct) (auto split: sum.splits)

lemma run_steps_Inl: "run_steps ss = Inl e \<Longrightarrow> \<exists>c. Inl (e, c) \<in> set ss"
  by (induction ss rule: run_steps.induct) (auto split: sum.splits)

lemma run_steps_no_raise: "\<forall>y. Inl y \<notin> set ss \<Longrightarrow> run_steps ss = Inr (items_of ss)"
  by (induction ss rule: run_steps.induct) auto

lemma walk_Dir:
  "walk P w rel (Dir fs cs) =
     fst (visit P w rel (map fst cs) fs) @
     concat (map (\<lambda>(n, t). if n \<in> set (snd (visit P w rel (map fst cs) fs))
                            then walk P w (rel @ [n]) t else []) cs)"
  by (simp split: prod.splits)

declare walk.simps(2) [simp del]

lemma visit_specific:
  "is_under_specific P w rel \<Longrightarrow> visit P w rel ds fs = ([Inr (specific_item P rel)], [])"
  by (simp add: visit_def specific_item_def)

lemma partition_names_nonempty:
  "(if xs \<noteq> [] then partition_names lo S xs else (xs, [])) = partition_names lo S xs"
  by (simp add: partition_names_def)

lemma visit_open:
  "\<not> is_under_specific P w rel \<Longrightarrow>
   visit P w rel ds fs =
     (map (\<lambda>n. Inr (root_item P n)) (filter (\<lambda>n. rel = [] \<and> str_lower w n \<in> root_excl P) ds) @
      map (\<lambda>n. Inr (rec_item P rel n))
        (filter (\<lambda>n. \<not> (rel = [] \<and> str_lower w n \<in> root_excl P) \<and> str_lower w n \<in> rec_excl P) ds) @
      map (file_item P w rel) fs,
      filter (kept P w rel) ds)"
proof (cases "rel = []")
  case True
  assume "\<not> is_under_specific P w rel"
  then show ?thesis
    unfolding visit_def Let_def partition_names_nonempty
    by (simp add: True partition_names_def root_item_def rec_item_def kept_def[abs_def] conj_commute)
next
  case False
  assume "\<not> is_under_specific P w rel"
  then show ?thesis
    unfolding visit_def Let_def partition_names_nonempty
    by (simp add: False partition_names_def root_item_def rec_item_def kept_def[abs_def])
qed

lemma walk_specific:
  "is_under_specific P w rel \<Longrightarrow> walk P w rel (Dir fs cs) = [Inr (specific_item P rel)]"
  unfolding walk_Dir by (simp add: visit_specific)

lemma walk_open:
  "\<not> is_under_specific P w rel \<Longrightarrow>
   walk P w rel (Dir fs cs) =
     map (\<lambda>n. Inr (root_item P n))
       (filter (\<lambda>n. rel = [] \<and> str_lower w n \<in> root_excl P) (map fst cs)) @
     map (\<lambda>n. Inr (rec_item P rel n))
       (filter (\<lambda>n. \<not> (rel = [] \<and> str_lower w n \<in> root_excl P) \<and> str_lower w n \<in> rec_excl P)
          (map fst cs)) @
     map (file_item P w rel) fs @
     concat (map (\<lambda>(n, t). if kept P w rel n then walk P w (rel @ [n]) t else []) cs)"
proof -
  assume a: "\<not> is_under_specific P w rel"
  have "map (\<lambda>(n, t). if n \<in> set (filter (kept P w rel) (map fst cs)) then walk P w (rel @ [n]) t else []) cs
      = map (\<lambda>(n, t). if kept P w rel n then walk P w (rel @ [n]) t else []) cs"
    by (rule map_cong) (auto simp: rev_image_eqI)
  then show ?thesis
    unfolding walk_Dir visit_open[OF a] by (simp only: fst_conv snd_conv append_assoc)
qed

lemma walk_items_open:
  "\<not> is_under_specific P w rel \<Longrightarrow>
   items_of (walk P w rel (Dir fs cs)) =
     map (root_item P) (filter (\<lambda>n. rel = [] \<and> str_lower w n \<in> root_excl P) (map fst cs)) @
     map (rec_item P rel)
       (filter (\<lambda>n. \<not> (rel = [] \<and> str_lower w n \<in> root_excl P) \<and> str_lower w n \<in> rec_excl P)
          (map fst cs)) @
     items_of (map (file_item P w rel) fs) @
     concat (map (\<lambda>(n, t). if kept P w rel n then items_of (walk P w (rel @ [n]) t) else []) cs)"
proof -
  assume a: "\<not> is_under_specific P w rel"
  have "(\<lambda>c. items_of ((\<lambda>(n, t). if kept P w rel n then walk P w (rel @ [n]) t else []) c))
      = (\<lambda>(n, t). if kept P w rel n then items_of (walk P w (rel @ [n]) t) else [])"
    by (rule ext) (simp split: prod.splits)
  then show ?thesis
    unfolding walk_open[OF a] items_of_append items_of_map_Inr items_of_concat by simp
qed

lemma open_from_append:
  "open_from P w rel (a @ b) \<longleftrightarrow> open_from P w rel a \<and> open_from P w (rel @ a) b"
  by (induction a arbitrary: rel) auto

lemma walk_origin:
  "s \<in> set (walk P w rel t) \<Longrightarrow> \<exists>r. open_from P w rel r \<and> emitted_at P w (rel @ r) s"
proof (induction P w rel t rule: walk.induct)
  case (1 P w rel_dir)
  then show ?case by simp
next
  case (2 P w rel_dir filenames subdirs)
  show ?case
  proof (cases "is_under_specific P w rel_dir")
    case True
    with 2(2) have "s = Inr (specific_item P rel_dir)" by (simp add: walk_specific)
    then have "open_from P w rel_dir [] \<and> emitted_at P w (rel_dir @ []) s"
      using True by (simp add: emitted_at_def)
    then show ?thesis by blast
  next
    case False
    note op = walk_open[OF False, of filenames subdirs]
    from 2(2) consider
        (here) "s \<in> set (map (\<lambda>n. Inr (root_item P n))
               (filter (\<lambda>n. rel_dir = [] \<and> str_lower w n \<in> root_excl P) (map fst subdirs)) @
             map (\<lambda>n. Inr (rec_item P rel_dir n))
               (filter (\<lambda>n. \<not> (rel_dir = [] \<and> str_lower w n \<in> root_excl P) \<and>
                             str_lower w n \<in> rec_excl P) (map fst subdirs)) @
             map (file_item P w rel_dir) filenames)"
      | (below) n t where "(n, t) \<in> set subdirs" "kept P w rel_dir n"
          "s \<in> set (walk P w (rel_dir @ [n]) t)"
      unfolding op by (auto split: if_splits)
    then show ?thesis
    proof cases
      case here
      then have "emitted_at P w rel_dir s"
        using False by (auto simp: emitted_at_def)
      then have "open_from P w rel_dir [] \<and> emitted_at P w (rel_dir @ []) s" by simp
      then show ?thesis by blast
    next
      case below
      have "n \<in> set (snd (visit P w rel_dir (map fst subdirs) filenames))"
        using below(1,2) by (auto simp: visit_open[OF False] rev_image_eqI)
      then obtain r where r: "open_from P w (rel_dir @ [n]) r" "emitted_at P w ((rel_dir @ [n]) @ r) s"
        using 2(1)[OF surjective_pairing[symmetric] below(1) refl _ below(3)] by (auto simp: prod_eq_iff)
      then have "open_from P w rel_dir (n # r) \<and> emitted_at P w (rel_dir @ (n # r)) s"
        using False below(2) by simp
      then show ?thesis by blast
    qed
  qed
qed

lemma walk_item_origin:
  "x \<in> set (items_of (walk P w rel t)) \<Longrightarrow>
   \<exists>r. open_from P w rel r \<and> emitted_at P w (rel @ r) (Inr x)"
  by (simp add: set_items_of walk_origin)

lemma file_item_paths:
  "file_item P w r f = Inr x \<Longrightarrow>
   src (fst x) = src_root P @ r @ [f] \<and> dst (fst x) = dst_root P @ r @ [f]"
  by (auto simp: file_item_def Let_def PlanItem_def split: if_splits sum.splits prod.splits)

lemma decide_calls:
  assumes "decide w s d = Inl (e, calls) \<or> decide w s d = Inr (a, calls)" and "c \<in> set calls"
  shows "call_path c = s \<or> call_path c = d"
  using assms by (auto simp: decide_def Let_def split: sum.splits if_splits)

lemma file_item_calls:
  assumes "c \<in> set (step_calls (file_item P w r f))"
  shows "\<not> is_file_excluded P w f \<and> last (call_path c) = f"
proof -
  let ?s = "src_root P @ r @ [f]" and ?d = "dst_root P @ r @ [f]"
  have ne: "\<not> is_file_excluded P w f"
    using assms by (auto simp: file_item_def Let_def split: if_splits)
  have "call_path c = ?s \<or> call_path c = ?d"
  proof (cases "decide w ?s ?d")
    case (Inl y)
    obtain e calls where y: "y = (e, calls)" by (cases y)
    have "file_item P w r f = Inl (e, calls)"
      using ne Inl y by (simp add: file_item_def Let_def)
    with assms have "c \<in> set calls" by simp
    then show ?thesis using decide_calls[of w ?s ?d e calls] Inl y by simp
  next
    case (Inr y)
    obtain act rsn calls where y: "y = ((act, rsn), calls)" by (cases y) auto
    have "file_item P w r f = Inr (PlanItem act ?s ?d rsn, calls)"
      using ne Inr y by (simp add: file_item_def Let_def)
    with assms have "c \<in> set calls" by simp
    then show ?thesis using decide_calls[of w ?s ?d _ calls "(act, rsn)"] Inr y by simp
  qed
  then have "last (call_path c) = f" by auto
  with ne show ?thesis by simp
qed

lemma emitted_paths:
  assumes "emitted_at P w r (Inr x)"
  shows "(is_under_specific P w r \<and> x = specific_item P r) \<or>
         (\<not> is_under_specific P w r \<and>
            (\<exists>n. src (fst x) = src_root P @ r @ [n] \<and> dst (fst x) = dst_root P @ r @ [n]))"
  using assms
  by (auto simp: emitted_at_def root_item_def rec_item_def PlanItem_def
      split: if_splits dest: file_item_paths[OF sym])

lemma emitted_calls:
  assumes "emitted_at P w r s" "c \<in> set (step_calls s)"
  shows "\<not> is_file_excluded P w (last (call_path c))"
  using assms
  by (auto simp: emitted_at_def root_item_def rec_item_def specific_item_def
      split: if_splits dest: file_item_calls)

lemma emitted_raise:
  assumes "emitted_at P w r (Inl (e, c))"
  shows "\<exists>f. dst_exists w (dst_root P @ r @ [f]) = Inl e"
  using assms
  by (auto simp: emitted_at_def file_item_def decide_def Let_def
      split: if_splits sum.splits prod.splits)

lemma plan_items:
  "plan P w t = Inr items \<Longrightarrow>
   items = map fst (items_of (walk P w [] t)) \<and> src_root_exists w = Inr True"
  by (auto simp: plan_def plan_calls_def split: if_splits sum.splits dest: run_steps_items)

lemma emitted_action:
  assumes "emitted_at P w r (Inr x)" "action (fst x) \<noteq> EXCLUDE"
  shows "\<exists>f. file_item P w r f = Inr x"
  using assms
  by (auto simp: emitted_at_def root_item_def rec_item_def specific_item_def PlanItem_def
      split: if_splits)

lemma emitted_correspondence:
  assumes "emitted_at P w r (Inr x)"
  shows "\<exists>rel. src (fst x) = src_root P @ rel \<and> dst (fst x) = dst_root P @ rel \<and>
               (action (fst x) \<noteq> EXCLUDE \<longrightarrow> rel \<noteq> [])"
proof (cases "action (fst x) = EXCLUDE")
  case True
  from emitted_paths[OF assms] show ?thesis
  proof
    assume "is_under_specific P w r \<and> x = specific_item P r"
    then show ?thesis by (auto simp: specific_item_def PlanItem_def)
  next
    assume "\<not> is_under_specific P w r \<and>
      (\<exists>n. src (fst x) = src_root P @ r @ [n] \<and> dst (fst x) = dst_root P @ r @ [n])"
    then show ?thesis by auto
  qed
next
  case False
  then obtain f where "file_item P w r f = Inr x" using emitted_action[OF assms] by blast
  then have "src (fst x) = src_root P @ (r @ [f]) \<and> dst (fst x) = dst_root P @ (r @ [f])"
    using file_item_paths by fastforce
  then show ?thesis by (intro exI[of _ "r @ [f]"]) simp
qed

lemma filter_concat_map_single:
  assumes "distinct (map fst cs)" and "(n, t) \<in> set cs"
    and "\<And>m u. (m, u) \<in> set cs \<Longrightarrow> m \<noteq> n \<Longrightarrow> filter Q (f (m, u)) = []"
  shows "filter Q (concat (map f cs)) = filter Q (f (n, t))"
  using assms
proof (induction cs)
  case Nil
  then show ?case by simp
next
  case (Cons c cs)
  obtain m u where c: "c = (m, u)" by (cases c)
  show ?case
  proof (cases "m = n")
    case True
    with Cons.prems(1,2) c have eq: "c = (n, t)"
      by (auto simp: image_iff)
    have "filter Q (concat (map f cs)) = []"
    proof -
      have "\<forall>b \<in> set cs. filter Q (f b) = []"
      proof
        fix b assume b: "b \<in> set cs"
        obtain m' u' where b': "b = (m', u')" by (cases b)
        with b Cons.prems(1) eq have "m' \<noteq> n" by (auto simp: image_iff)
        with Cons.prems(3)[of m' u'] b b' show "filter Q (f b) = []" by simp
      qed
      then show ?thesis by (induction cs) auto
    qed
    with eq show ?thesis by simp
  next
    case False
    with Cons.prems(2) c have "(n, t) \<in> set cs" by auto
    moreover have "distinct (map fst cs)" using Cons.prems(1) by simp
    ultimately have "filter Q (concat (map f cs)) = filter Q (f (n, t))"
      using Cons.IH Cons.prems(3) by auto
    moreover have "filter Q (f c) = []" using Cons.prems(3)[of m u] c False by simp
    ultimately show ?thesis by simp
  qed
qed

lemma filter_concat_map_none:
  "(\<And>c. c \<in> set cs \<Longrightarrow> filter Q (f c) = []) \<Longrightarrow> filter Q (concat (map f cs)) = []"
  by (induction cs) auto

lemma filter_map_name:
  assumes "distinct xs" and "\<And>n. src (fst (g n)) = base @ [n]"
  shows "filter (\<lambda>x. src (fst x) = base @ [z]) (map g (filter R xs)) =
         (if z \<in> set xs \<and> R z then [g z] else [])"
  using assms(1) by (induction xs) (auto simp: assms(2))

lemma filter_items_name:
  assumes "distinct xs" and "\<And>n x. g n = Inr x \<Longrightarrow> src (fst x) = base @ [n]"
  shows "filter (\<lambda>x. src (fst x) = base @ [z]) (items_of (map g xs)) =
         (if z \<in> set xs then items_of [g z] else [])"
  using assms(1)
proof (induction xs)
  case Nil
  then show ?case by simp
next
  case (Cons a xs)
  show ?case
  proof (cases "g a")
    case (Inl y)
    then show ?thesis using Cons by auto
  next
    case (Inr x)
    then show ?thesis using Cons assms(2)[OF Inr] by auto
  qed
qed

lemma walk_src_prefix:
  assumes "x \<in> set (items_of (walk P w rel t))"
  shows "\<exists>r. src (fst x) = src_root P @ rel @ r"
proof -
  from walk_item_origin[OF assms] obtain r where r: "emitted_at P w (rel @ r) (Inr x)" by blast
  from emitted_paths[OF r] show ?thesis
  proof
    assume "is_under_specific P w (rel @ r) \<and> x = specific_item P (rel @ r)"
    then have "src (fst x) = src_root P @ rel @ r" by (simp add: specific_item_def PlanItem_def)
    then show ?thesis by blast
  next
    assume "\<not> is_under_specific P w (rel @ r) \<and>
      (\<exists>n. src (fst x) = src_root P @ (rel @ r) @ [n] \<and> dst (fst x) = dst_root P @ (rel @ r) @ [n])"
    then obtain n where "src (fst x) = src_root P @ rel @ (r @ [n])" by auto
    then show ?thesis by blast
  qed
qed

lemma child_other_name:
  assumes "x \<in> set (items_of (walk P w (rel @ [m]) u))"
    and "src (fst x) = src_root P @ rel @ n # rest"
  shows "m = n"
proof -
  from walk_src_prefix[OF assms(1)] obtain r where "src (fst x) = src_root P @ (rel @ [m]) @ r"
    by blast
  with assms(2) show ?thesis by simp
qed

lemma src_root_item: "src (fst (root_item P n)) = src_root P @ [n]"
  by (simp add: root_item_def PlanItem_def)

lemma src_rec_item: "src (fst (rec_item P rel n)) = src_root P @ rel @ [n]"
  by (simp add: rec_item_def PlanItem_def)

lemma src_file_item: "file_item P w rel f = Inr x \<Longrightarrow> src (fst x) = src_root P @ rel @ [f]"
  by (simp add: file_item_paths)

lemma filter_file_items_none:
  assumes "\<And>f. f \<in> set fs \<Longrightarrow> X \<noteq> src_root P @ rel @ [f]"
  shows "filter (\<lambda>x. src (fst x) = X) (items_of (map (file_item P w rel) fs)) = []"
proof -
  have "src (fst x) \<noteq> X" if "x \<in> set (items_of (map (file_item P w rel) fs))" for x
  proof -
    from that obtain f where f: "f \<in> set fs" "file_item P w rel f = Inr x"
      by (auto simp: set_items_of)
    then show ?thesis using src_file_item[OF f(2)] assms[OF f(1)] by simp
  qed
  then show ?thesis by (auto simp: filter_empty_conv)
qed

lemma level_filter:
  assumes op: "\<not> is_under_specific P w rel" and d: "distinct (fs @ map fst cs)"
  shows "filter (\<lambda>x. src (fst x) = src_root P @ rel @ [z]) (items_of (walk P w rel (Dir fs cs))) =
     (if z \<in> fst ` set cs \<and> rel = [] \<and> str_lower w z \<in> root_excl P then [root_item P z] else []) @
     (if z \<in> fst ` set cs \<and> \<not> (rel = [] \<and> str_lower w z \<in> root_excl P) \<and> str_lower w z \<in> rec_excl P
      then [rec_item P rel z] else []) @
     (if z \<in> set fs then items_of [file_item P w rel z] else []) @
     (case map_of cs z of
        Some u \<Rightarrow> if kept P w rel z
                  then filter (\<lambda>x. src (fst x) = src_root P @ rel @ [z]) (items_of (walk P w (rel @ [z]) u))
                  else []
      | None \<Rightarrow> [])"
proof -
  let ?Q = "\<lambda>x. src (fst x) = src_root P @ rel @ [z]"
  have dfs: "distinct fs" and dcs: "distinct (map fst cs)" using d by auto
  have A: "filter ?Q (map (root_item P) (filter (\<lambda>n. rel = [] \<and> str_lower w n \<in> root_excl P) (map fst cs)))
      = (if z \<in> fst ` set cs \<and> rel = [] \<and> str_lower w z \<in> root_excl P then [root_item P z] else [])"
  proof (cases "rel = []")
    case True
    have "filter (\<lambda>x. src (fst x) = src_root P @ [z])
            (map (root_item P) (filter (\<lambda>n. str_lower w n \<in> root_excl P) (map fst cs)))
      = (if z \<in> set (map fst cs) \<and> str_lower w z \<in> root_excl P then [root_item P z] else [])"
      by (rule filter_map_name[OF dcs]) (rule src_root_item)
    then show ?thesis by (simp add: True)
  next
    case False
    then show ?thesis by simp
  qed
  have B: "filter ?Q (map (rec_item P rel)
        (filter (\<lambda>n. \<not> (rel = [] \<and> str_lower w n \<in> root_excl P) \<and> str_lower w n \<in> rec_excl P) (map fst cs)))
      = (if z \<in> fst ` set cs \<and> \<not> (rel = [] \<and> str_lower w z \<in> root_excl P) \<and> str_lower w z \<in> rec_excl P
      then [rec_item P rel z] else [])"
  proof -
    have "filter (\<lambda>x. src (fst x) = (src_root P @ rel) @ [z]) (map (rec_item P rel)
        (filter (\<lambda>n. \<not> (rel = [] \<and> str_lower w n \<in> root_excl P) \<and> str_lower w n \<in> rec_excl P) (map fst cs)))
      = (if z \<in> set (map fst cs) \<and> (\<not> (rel = [] \<and> str_lower w z \<in> root_excl P) \<and> str_lower w z \<in> rec_excl P)
      then [rec_item P rel z] else [])"
      by (rule filter_map_name[OF dcs]) (simp add: src_rec_item)
    then show ?thesis by simp
  qed
  have C: "filter ?Q (items_of (map (file_item P w rel) fs)) =
      (if z \<in> set fs then items_of [file_item P w rel z] else [])"
  proof -
    have "filter (\<lambda>x. src (fst x) = (src_root P @ rel) @ [z])
            (items_of (map (file_item P w rel) fs))
      = (if z \<in> set fs then items_of [file_item P w rel z] else [])"
      by (rule filter_items_name[OF dfs]) (simp add: src_file_item)
    then show ?thesis by simp
  qed
  let ?child = "\<lambda>(n, t). if kept P w rel n then items_of (walk P w (rel @ [n]) t) else []"
  have D: "filter ?Q (concat (map ?child cs)) =
      (case map_of cs z of
        Some u \<Rightarrow> if kept P w rel z then filter ?Q (items_of (walk P w (rel @ [z]) u)) else []
      | None \<Rightarrow> [])"
  proof (cases "map_of cs z")
    case None
    have "filter ?Q (concat (map ?child cs)) = []"
    proof (rule filter_concat_map_none)
      fix c assume c: "c \<in> set cs"
      obtain m u where mu: "c = (m, u)" by (cases c)
      with c None have "m \<noteq> z" by (metis map_of_eq_None_iff fst_conv image_eqI)
      then show "filter ?Q (?child c) = []"
        using child_other_name[of _ P w rel m u z "[]"] by (auto simp: mu filter_empty_conv)
    qed
    with None show ?thesis by simp
  next
    case (Some u)
    then have inz: "(z, u) \<in> set cs" by (rule map_of_SomeD)
    have "filter ?Q (concat (map ?child cs)) = filter ?Q (?child (z, u))"
    proof (rule filter_concat_map_single[OF dcs inz])
      fix m u' assume "(m, u') \<in> set cs" "m \<noteq> z"
      then show "filter ?Q (?child (m, u')) = []"
        using child_other_name[of _ P w rel m u' z "[]"] by (auto simp: filter_empty_conv)
    qed
    with Some show ?thesis by simp
  qed
  show ?thesis
    unfolding walk_items_open[OF op] filter_append A B C D ..
qed

lemma wf_tree_child:
  "wf_tree (Dir fs cs) \<Longrightarrow> (n, u) \<in> set cs \<Longrightarrow> wf_tree u"
  by (auto simp: list_all_iff)

lemma reach_Cons_iff:
  "reach P w rel t (n # q) = Some t' \<longleftrightarrow>
     (\<exists>fs cs u. t = Dir fs cs \<and> \<not> is_under_specific P w rel \<and> kept P w rel n \<and>
        map_of cs n = Some u \<and> reach P w (rel @ [n]) u q = Some t')"
  by (cases t) (auto split: option.splits)

lemma reach_wf:
  "wf_tree t \<Longrightarrow> reach P w rel t q = Some t' \<Longrightarrow> wf_tree t'"
proof (induction q arbitrary: rel t)
  case Nil
  then show ?case by simp
next
  case (Cons n q)
  from Cons.prems(2) obtain fs cs u where u: "t = Dir fs cs" "map_of cs n = Some u"
      "reach P w (rel @ [n]) u q = Some t'"
    unfolding reach_Cons_iff by blast
  then have "wf_tree u" using Cons.prems(1) wf_tree_child map_of_SomeD by fast
  with Cons.IH u(3) show ?case by blast
qed

lemma reach_append:
  "reach P w rel t (q @ r) = Some t' \<longleftrightarrow>
     (\<exists>u. reach P w rel t q = Some u \<and> reach P w (rel @ q) u r = Some t')"
proof (induction q arbitrary: rel t)
  case Nil
  then show ?case by simp
next
  case (Cons n q)
  show ?case
    unfolding append_Cons reach_Cons_iff using Cons.IH by auto
qed

lemma reach_subset:
  "reach P w rel t q = Some t' \<Longrightarrow> set (walk P w (rel @ q) t') \<subseteq> set (walk P w rel t)"
proof (induction q arbitrary: rel t)
  case Nil
  then show ?case by simp
next
  case (Cons n q)
  from Cons.prems obtain fs cs u where u: "t = Dir fs cs" "\<not> is_under_specific P w rel"
      "kept P w rel n" "map_of cs n = Some u" "reach P w (rel @ [n]) u q = Some t'"
    unfolding reach_Cons_iff by blast
  have "(n, u) \<in> set cs" using u(4) by (rule map_of_SomeD)
  then have "set (walk P w (rel @ [n]) u) \<subseteq> set (walk P w rel t)"
    unfolding u(1) walk_open[OF u(2)] using u(3) by force
  moreover have "set (walk P w ((rel @ [n]) @ q) t') \<subseteq> set (walk P w (rel @ [n]) u)"
    using Cons.IH[OF u(5)] .
  ultimately show ?case by simp
qed

lemma descend_filter:
  assumes "wf_tree t" and "reach P w rel t q = Some t'"
  shows "filter (\<lambda>x. src (fst x) = src_root P @ rel @ q @ z # zs) (items_of (walk P w rel t)) =
         filter (\<lambda>x. src (fst x) = src_root P @ rel @ q @ z # zs)
           (items_of (walk P w (rel @ q) t'))"
  using assms
proof (induction q arbitrary: rel t)
  case Nil
  then show ?case by simp
next
  case (Cons n q)
  from Cons.prems(2) obtain fs cs u where u: "t = Dir fs cs" "\<not> is_under_specific P w rel"
      "kept P w rel n" "map_of cs n = Some u" "reach P w (rel @ [n]) u q = Some t'"
    unfolding reach_Cons_iff by blast
  let ?Q = "\<lambda>x. src (fst x) = src_root P @ rel @ (n # q) @ z # zs"
  let ?child = "\<lambda>(n, t). if kept P w rel n then items_of (walk P w (rel @ [n]) t) else []"
  have inn: "(n, u) \<in> set cs" using u(4) by (rule map_of_SomeD)
  have dcs: "distinct (map fst cs)" using Cons.prems(1) u(1) by simp
  have wfu: "wf_tree u" using Cons.prems(1) u(1) inn wf_tree_child by blast
  have A: "filter ?Q (map (root_item P) xs) = []" if "rel = []" for xs
    by (simp add: filter_empty_conv src_root_item that)
  have B: "filter ?Q (map (rec_item P rel) xs) = []" for xs
    by (simp add: filter_empty_conv src_rec_item)
  have C: "filter ?Q (items_of (map (file_item P w rel) xs)) = []" for xs
    by (rule filter_file_items_none) simp
  have A': "filter ?Q (map (root_item P) (filter (\<lambda>n. rel = [] \<and> str_lower w n \<in> root_excl P) (map fst cs))) = []"
  proof (cases "rel = []")
    case True
    then show ?thesis by (simp add: filter_empty_conv src_root_item)
  next
    case False
    then show ?thesis by simp
  qed
  have D: "filter ?Q (concat (map ?child cs)) = filter ?Q (?child (n, u))"
  proof (rule filter_concat_map_single[OF dcs inn])
    fix m u' assume "(m, u') \<in> set cs" "m \<noteq> n"
    then show "filter ?Q (?child (m, u')) = []"
      using child_other_name[of _ P w rel m u' n "q @ z # zs"] by (auto simp: filter_empty_conv)
  qed
  have "filter ?Q (items_of (walk P w rel t)) = filter ?Q (items_of (walk P w (rel @ [n]) u))"
    unfolding u(1) walk_items_open[OF u(2)] filter_append A' B C D using u(3) by simp
  also have "\<dots> = filter (\<lambda>x. src (fst x) = src_root P @ (rel @ [n]) @ q @ z # zs)
       (items_of (walk P w (rel @ [n]) u))"
    by simp
  also have "\<dots> = filter (\<lambda>x. src (fst x) = src_root P @ (rel @ [n]) @ q @ z # zs)
       (items_of (walk P w ((rel @ [n]) @ q) t'))"
    using Cons.IH[OF wfu u(5)] .
  finally show ?case by simp
qed

lemma no_item_below:
  assumes "x \<in> set (items_of (walk P w [] t))"
    and "strict_prefix (src_root P @ p) (src (fst x))"
  shows "open_from P w [] p \<and> \<not> is_under_specific P w p"
proof -
  from walk_item_origin[OF assms(1)] obtain r where r: "open_from P w [] r" "emitted_at P w r (Inr x)"
    by auto
  have step: "open_from P w [] p \<and> \<not> is_under_specific P w p" if "strict_prefix p r"
  proof -
    from that obtain m ms where "r = p @ m # ms"
      by (metis strict_prefixE' )
    with r(1) show ?thesis by (simp add: open_from_append)
  qed
  from emitted_paths[OF r(2)] show ?thesis
  proof
    assume a: "is_under_specific P w r \<and> x = specific_item P r"
    then have "src (fst x) = src_root P @ r" by (simp add: specific_item_def PlanItem_def)
    with assms(2) have "strict_prefix p r" by (simp add: strict_prefix_def)
    then show ?thesis by (rule step)
  next
    assume a: "\<not> is_under_specific P w r \<and>
       (\<exists>n. src (fst x) = src_root P @ r @ [n] \<and> dst (fst x) = dst_root P @ r @ [n])"
    then obtain n where "src (fst x) = src_root P @ r @ [n]" by blast
    with assms(2) have sp: "strict_prefix p (r @ [n])" by (auto simp: strict_prefix_def)
    have "prefix p r" using sp unfolding strict_prefix_def prefix_snoc by blast
    then have "p = r \<or> strict_prefix p r" by (auto simp: strict_prefix_def)
    then show ?thesis
    proof
      assume "p = r" with r(1) a show ?thesis by simp
    next
      assume "strict_prefix p r" then show ?thesis by (rule step)
    qed
  qed
qed

lemma filter_items:
  "filter (\<lambda>it. src it = X) (map fst xs) = map fst (filter (\<lambda>x. src (fst x) = X) xs)"
  by (simp add: filter_map o_def)

lemma planner_from_yaml:
  assumes "excl cfg = excludes_from_yaml lo rd rc fp sp" and "P = SyncPlanner lo cfg"
  shows "root_excl P = lo ` set rd" and "rec_excl P = lo ` set rc"
    and "planner_patterns P = map lo fp"
    and "specific_excl P = map (\<lambda>p. lo (replace_slash p)) sp"
  using assms by (simp_all add: SyncPlanner_def excludes_from_yaml_def)

lemma pruned_entry:
  assumes wf: "wf_tree t" and r: "reach P w [] t q = Some (Dir fs cs)"
    and op: "\<not> is_under_specific P w q" and d: "d \<in> fst ` set cs" and nk: "\<not> kept P w q d"
  shows "filter (\<lambda>x. src (fst x) = src_root P @ q @ [d]) (items_of (walk P w [] t)) =
           [if q = [] \<and> str_lower w d \<in> root_excl P then root_item P d else rec_item P q d]"
proof -
  have wf': "wf_tree (Dir fs cs)" using reach_wf[OF wf r] .
  then have dist: "distinct (fs @ map fst cs)" by simp
  then have nf: "d \<notin> set fs" using d by auto
  have "filter (\<lambda>x. src (fst x) = src_root P @ [] @ q @ d # []) (items_of (walk P w [] t)) =
        filter (\<lambda>x. src (fst x) = src_root P @ [] @ q @ d # [])
          (items_of (walk P w ([] @ q) (Dir fs cs)))"
    by (rule descend_filter[OF wf r])
  then have "filter (\<lambda>x. src (fst x) = src_root P @ q @ [d]) (items_of (walk P w [] t)) =
        filter (\<lambda>x. src (fst x) = src_root P @ q @ [d]) (items_of (walk P w q (Dir fs cs)))"
    by simp
  also have "\<dots> = [if q = [] \<and> str_lower w d \<in> root_excl P then root_item P d else rec_item P q d]"
    unfolding level_filter[OF op dist] using d nf nk
    by (auto simp: kept_def split: option.splits)
  finally show ?thesis .
qed

lemma reason_file_item: "file_item P w r f = Inr x \<Longrightarrow> reason (fst x) \<noteq> ''root_dir''"
  by (auto simp: file_item_def Let_def decide_def PlanItem_def
      split: if_splits prod.splits sum.splits)

lemma walk_root_excl_irrelevant:
  "rel \<noteq> [] \<Longrightarrow> walk P w rel t = walk (P\<lparr>root_excl := X\<rparr>) w rel t"
proof (induction P w rel t rule: walk.induct)
  case (1 P w rel_dir)
  then show ?case by simp
next
  case (2 P w rel_dir filenames subdirs)
  let ?P' = "P\<lparr>root_excl := X\<rparr>"
  have us: "is_under_specific ?P' w r = is_under_specific P w r" for r
    by (simp add: is_under_specific_def)
  have fi: "file_item ?P' w rel_dir f = file_item P w rel_dir f" for f
    by (simp add: file_item_def is_file_excluded_def)
  have v: "visit ?P' w rel_dir ds fs = visit P w rel_dir ds fs" for ds fs
    using 2(2) by (simp add: visit_def us fi[abs_def] cong: if_cong)
  have "(if n \<in> set (snd (visit P w rel_dir (map fst subdirs) filenames))
         then walk P w (rel_dir @ [n]) u else []) =
        (if n \<in> set (snd (visit P w rel_dir (map fst subdirs) filenames))
         then walk ?P' w (rel_dir @ [n]) u else [])" if "(n, u) \<in> set subdirs" for n u
    using 2(1)[OF surjective_pairing[symmetric] that refl] by (simp add: prod_eq_iff)
  then have eq: "map (\<lambda>(n, t). if n \<in> set (snd (visit P w rel_dir (map fst subdirs) filenames))
                     then walk P w (rel_dir @ [n]) t else []) subdirs =
        map (\<lambda>(n, t). if n \<in> set (snd (visit P w rel_dir (map fst subdirs) filenames))
                     then walk ?P' w (rel_dir @ [n]) t else []) subdirs"
    by (intro map_cong) auto
  show ?case
    unfolding walk_Dir v eq ..
qed

lemma ascii_lower_simps [simp]:
  "ascii_lower [] = []" "ascii_lower (c # cs) = ascii_lower_char c # ascii_lower cs"
  by (simp_all add: ascii_lower_def)

lemma replace_slash_simps [simp]:
  "replace_slash [] = []"
  "replace_slash (c # cs) = (if c = fslash then bslash else c) # replace_slash cs"
  by (simp_all add: replace_slash_def)

section \<open>The decision for one file\<close>

text \<open>
  What \<open>_decide\<close> gives for a file whose name matches no pattern, case by case, with
  the calls made: \<open>EXCLUDE\<close> with \<open>unreadable:\<close> and the error text when \<open>os.stat\<close>
  on the source fails; else, when \<open>dst.exists()\<close> answers False, \<open>ADD\<close>, \<open>missing\<close>;
  else, when it answers True and \<open>os.stat\<close> on the destination fails, \<open>UPDATE\<close> with
  \<open>dst unreadable:\<close> and the error text; else \<open>SKIP\<close>, \<open>same size+mtime\<close> exactly
  when the sizes are equal and the difference of the modification times, as the
  subtraction of floats gives it, is at most 2 in absolute value, and otherwise
  \<open>UPDATE\<close> with a reason that says for each of the two comparisons whether it held.
  When \<open>dst.exists()\<close> raises, no item is made: the error leaves the turn.
\<close>

lemma file_item_decision:
  fixes P w rel fname
  defines "s \<equiv> src_root P @ rel @ [fname]"
    and "d \<equiv> dst_root P @ rel @ [fname]"
  assumes nomatch: "\<not> is_file_excluded P w fname"
  shows "(\<forall>e. src_stat w s = Inl e \<longrightarrow>
       file_item P w rel fname =
         Inr (PlanItem EXCLUDE s d (''unreadable: '' @ err_text e), [StatSrc s])) \<and>
    (\<forall>ss. src_stat w s = Inr ss \<and> dst_exists w d = Inr False \<longrightarrow>
       file_item P w rel fname = Inr (PlanItem ADD s d ''missing'', [StatSrc s, DstExists d])) \<and>
    (\<forall>ss e. src_stat w s = Inr ss \<and> dst_exists w d = Inr True \<and> dst_stat w d = Inl e \<longrightarrow>
       file_item P w rel fname =
         Inr (PlanItem UPDATE s d (''dst unreadable: '' @ err_text e),
              [StatSrc s, DstExists d, StatDst d])) \<and>
    (\<forall>ss ds. src_stat w s = Inr ss \<and> dst_exists w d = Inr True \<and> dst_stat w d = Inr ds \<longrightarrow>
       file_item P w rel fname =
         Inr (if st_size ss = st_size ds \<and> \<bar>float_sub w (st_mtime ss) (st_mtime ds)\<bar> \<le> 2
              then PlanItem SKIP s d ''same size+mtime''
              else PlanItem UPDATE s d
                     (''size '' @ (if st_size ss = st_size ds then ''='' else neq_sign) @
                      '', mtime '' @
                      (if \<bar>float_sub w (st_mtime ss) (st_mtime ds)\<bar> \<le> 2 then ''='' else neq_sign)),
              [StatSrc s, DstExists d, StatDst d])) \<and>
    (\<forall>ss e. src_stat w s = Inr ss \<and> dst_exists w d = Inl e \<longrightarrow>
       file_item P w rel fname = Inl (e, [StatSrc s, DstExists d]))"
proof -
  have fi: "file_item P w rel fname =
      (case decide w s d of
         Inl (e, calls) \<Rightarrow> Inl (e, calls)
       | Inr ((act, rsn), calls) \<Rightarrow> Inr (PlanItem act s d rsn, calls))"
    unfolding s_def d_def using nomatch by (simp add: file_item_def Let_def)
  have unread: "\<forall>e. src_stat w s = Inl e \<longrightarrow>
       file_item P w rel fname =
         Inr (PlanItem EXCLUDE s d (''unreadable: '' @ err_text e), [StatSrc s])"
    by (simp add: fi decide_def)
  have missing: "\<forall>ss. src_stat w s = Inr ss \<and> dst_exists w d = Inr False \<longrightarrow>
       file_item P w rel fname = Inr (PlanItem ADD s d ''missing'', [StatSrc s, DstExists d])"
    by (simp add: fi decide_def)
  have dstbad: "\<forall>ss e. src_stat w s = Inr ss \<and> dst_exists w d = Inr True \<and> dst_stat w d = Inl e \<longrightarrow>
       file_item P w rel fname =
         Inr (PlanItem UPDATE s d (''dst unreadable: '' @ err_text e),
              [StatSrc s, DstExists d, StatDst d])"
    by (simp add: fi decide_def)
  have cmp: "\<forall>ss ds. src_stat w s = Inr ss \<and> dst_exists w d = Inr True \<and> dst_stat w d = Inr ds \<longrightarrow>
       file_item P w rel fname =
         Inr (if st_size ss = st_size ds \<and> \<bar>float_sub w (st_mtime ss) (st_mtime ds)\<bar> \<le> 2
              then PlanItem SKIP s d ''same size+mtime''
              else PlanItem UPDATE s d
                     (''size '' @ (if st_size ss = st_size ds then ''='' else neq_sign) @
                      '', mtime '' @
                      (if \<bar>float_sub w (st_mtime ss) (st_mtime ds)\<bar> \<le> 2 then ''='' else neq_sign)),
              [StatSrc s, DstExists d, StatDst d])"
    by (simp add: fi decide_def Let_def)
  have raised: "\<forall>ss e. src_stat w s = Inr ss \<and> dst_exists w d = Inl e \<longrightarrow>
       file_item P w rel fname = Inl (e, [StatSrc s, DstExists d])"
    by (simp add: fi decide_def)
  from unread missing dstbad cmp raised show ?thesis by (intro conjI)
qed

section \<open>Joined segments and the path-prefix check\<close>

lemma join_with_Cons:
  "join_with sep (a # r) = (if r = [] then a else a @ sep # join_with sep r)"
  by (cases r) simp_all

lemma sep_split_eq:
  "sep \<notin> set x \<Longrightarrow> sep \<notin> set y \<Longrightarrow> x @ sep # u = y @ sep # v \<longleftrightarrow> x = y \<and> u = v"
proof (induction x arbitrary: y)
  case Nil
  then show ?case by (cases y) auto
next
  case (Cons c x)
  then show ?case by (cases y) auto
qed

lemma sep_split_prefix:
  "sep \<notin> set x \<Longrightarrow> sep \<notin> set y \<Longrightarrow>
   prefix (x @ sep # u) (y @ sep # v) \<longleftrightarrow> x = y \<and> prefix u v"
proof (induction x arbitrary: y)
  case Nil
  then show ?case by (cases y) auto
next
  case (Cons c x)
  then show ?case by (cases y) auto
qed

lemma sep_not_prefix:
  "sep \<notin> set y \<Longrightarrow> \<not> prefix (x @ sep # u) y"
  by (metis in_set_conv_decomp prefix_def append.assoc append_Cons)

lemma join_inj:
  assumes "\<forall>n \<in> set p. sep \<notin> set n" and "\<forall>n \<in> set q. sep \<notin> set n"
    and "p \<noteq> []" and "q \<noteq> []"
  shows "join_with sep p = join_with sep q \<longleftrightarrow> p = q"
  using assms
proof (induction p arbitrary: q)
  case Nil
  then show ?case by simp
next
  case (Cons a p)
  from Cons.prems(4) obtain b q' where q: "q = b # q'" by (cases q) auto
  have a: "sep \<notin> set a" and b: "sep \<notin> set b" using Cons.prems(1,2) q by auto
  show ?case
  proof (cases "p = []")
    case True
    then show ?thesis using a b by (auto simp: q join_with_Cons)
  next
    case False
    note pne = False
    show ?thesis
    proof (cases "q' = []")
      case True
      then show ?thesis using a b pne by (auto simp: q join_with_Cons)
    next
      case False
      have "join_with sep p = join_with sep q' \<longleftrightarrow> p = q'"
        using Cons.IH[of q'] Cons.prems(1,2) pne False q by auto
      then show ?thesis using a b pne False
        by (simp add: q join_with_Cons sep_split_eq)
    qed
  qed
qed

lemma join_prefix:
  assumes "\<forall>n \<in> set p. sep \<notin> set n" and "\<forall>n \<in> set q. sep \<notin> set n"
    and "p \<noteq> []" and "q \<noteq> []"
  shows "prefix (join_with sep q @ [sep]) (join_with sep p) \<longleftrightarrow> strict_prefix q p"
  using assms
proof (induction q arbitrary: p)
  case Nil
  then show ?case by simp
next
  case (Cons b q)
  from Cons.prems(3) obtain a p' where p: "p = a # p'" by (cases p) auto
  have a: "sep \<notin> set a" and b: "sep \<notin> set b" using Cons.prems(1,2) p by auto
  show ?case
  proof (cases "p' = []")
    case True
    have "\<not> prefix (join_with sep (b # q) @ [sep]) a"
      using sep_not_prefix[OF a, of "join_with sep (b # q)" "[]"] by simp
    moreover have "\<not> strict_prefix (b # q) [a]" by (auto simp: strict_prefix_def)
    ultimately show ?thesis by (simp add: p True)
  next
    case False
    note pne = False
    show ?thesis
    proof (cases "q = []")
      case True
      have "prefix (b @ [sep]) (a @ sep # join_with sep p') \<longleftrightarrow> b = a"
        using sep_split_prefix[OF b a, of "[]" "join_with sep p'"] by simp
      then show ?thesis using pne by (auto simp: p True join_with_Cons strict_prefix_def)
    next
      case False
      have IH: "prefix (join_with sep q @ [sep]) (join_with sep p') \<longleftrightarrow> strict_prefix q p'"
        using Cons.IH[of p'] Cons.prems(1,2) pne False p by auto
      have "prefix ((b @ sep # join_with sep q) @ [sep]) (a @ sep # join_with sep p') \<longleftrightarrow>
            b = a \<and> prefix (join_with sep q @ [sep]) (join_with sep p')"
        using sep_split_prefix[OF b a, of "join_with sep q @ [sep]" "join_with sep p'"] by simp
      then show ?thesis using pne False IH
        by (auto simp: p join_with_Cons strict_prefix_def)
    qed
  qed
qed

lemma ascii_lower_char_cases:
  "ascii_lower_char c = c \<or> ascii_lower_char c \<in> set ''abcdefghijklmnopqrstuvwxyz''"
proof -
  define U where "U = ''ABCDEFGHIJKLMNOPQRSTUVWXYZ''"
  define L where "L = ''abcdefghijklmnopqrstuvwxyz''"
  have lc: "ascii_lower_char c = (case map_of (zip U L) c of Some l \<Rightarrow> l | None \<Rightarrow> c)"
    unfolding ascii_lower_char_def U_def L_def ..
  show ?thesis
  proof (cases "map_of (zip U L) c")
    case None
    then show ?thesis by (simp add: lc)
  next
    case (Some l)
    then have "l \<in> set L" by (meson map_of_SomeD set_zip_rightD)
    with Some show ?thesis unfolding lc L_def by simp
  qed
qed

lemma ascii_lower_char_fixed:
  assumes "x \<notin> set ''abcdefghijklmnopqrstuvwxyz''" and "x \<notin> set ''ABCDEFGHIJKLMNOPQRSTUVWXYZ''"
  shows "ascii_lower_char c = x \<longleftrightarrow> c = x"
proof
  assume "ascii_lower_char c = x"
  with ascii_lower_char_cases[of c] assms(1) show "c = x" by auto
next
  assume cx: "c = x"
  have "map_of (zip ''ABCDEFGHIJKLMNOPQRSTUVWXYZ'' ''abcdefghijklmnopqrstuvwxyz'') x = None"
    using assms(2) by (subst map_of_eq_None_iff) (auto dest: set_zip_leftD)
  then show "ascii_lower_char c = x" by (simp add: ascii_lower_char_def cx)
qed

lemma ascii_lower_char_bslash: "ascii_lower_char c = bslash \<longleftrightarrow> c = bslash"
  by (rule ascii_lower_char_fixed) (simp_all add: bslash_def)

lemma ascii_lower_char_dot: "ascii_lower_char c = CHR ''.'' \<longleftrightarrow> c = CHR ''.''"
  by (rule ascii_lower_char_fixed) simp_all

lemma ascii_lower_bslash_free: "bslash \<notin> set n \<Longrightarrow> bslash \<notin> set (ascii_lower n)"
proof
  assume n: "bslash \<notin> set n" and "bslash \<in> set (ascii_lower n)"
  then obtain x where x: "x \<in> set n" "ascii_lower_char x = bslash" by (auto simp: ascii_lower_def)
  then have "x = bslash" by (simp add: ascii_lower_char_bslash)
  with x(1) n show False by simp
qed

lemma ascii_lower_dot: "ascii_lower n = ''.'' \<longleftrightarrow> n = ''.''"
proof
  assume "ascii_lower n = ''.''"
  then obtain c where c: "n = [c]" "ascii_lower_char c = CHR ''.''"
    by (cases n) (auto simp: ascii_lower_def)
  have "c = CHR ''.''" using c(2) by (simp add: ascii_lower_char_dot)
  with c show "n = ''.''" by simp
next
  assume "n = ''.''"
  then show "ascii_lower n = ''.''" by (simp add: ascii_lower_def ascii_lower_char_dot)
qed

lemma ascii_lowers_by_segment: "lowers_by_segment ascii_lower"
proof -
  have "ascii_lower (a @ bslash # b) = ascii_lower a @ bslash # ascii_lower b" for a b
    by (simp add: ascii_lower_def ascii_lower_char_bslash)
  then show ?thesis
    unfolding lowers_by_segment_def
    using ascii_lower_bslash_free ascii_lower_dot by blast
qed

lemma replace_slash_append: "replace_slash (a @ b) = replace_slash a @ replace_slash b"
  by (simp add: replace_slash_def)

lemma replace_slash_id: "fslash \<notin> set n \<Longrightarrow> replace_slash n = n"
  by (induction n) auto

lemma replace_join:
  "\<forall>n \<in> set p. fslash \<notin> set n \<Longrightarrow> replace_slash (join_with fslash p) = join_with bslash p"
  by (induction fslash p rule: join_with.induct)
     (simp_all add: replace_slash_append replace_slash_id)

lemma lower_join:
  assumes "lowers_by_segment lo" and "p \<noteq> []"
  shows "lo (join_with bslash p) = join_with bslash (map lo p)"
  using assms(2)
proof (induction bslash p rule: join_with.induct)
  case 1
  then show ?case by simp
next
  case (2 a)
  then show ?case by simp
next
  case (3 a b r)
  have "lo (a @ bslash # join_with bslash (b # r)) = lo a @ bslash # lo (join_with bslash (b # r))"
    using assms(1) unfolding lowers_by_segment_def by blast
  with 3 show ?case by simp
qed

lemma rel_str_segments:
  assumes "lowers_by_segment lo" and "\<forall>n \<in> set p. sep_free n" and "p \<noteq> []"
  shows "rel_str lo p = join_with bslash (map lo p)"
  using assms(2,3) lower_join[OF assms(1,3)]
  by (simp add: rel_str_def path_str_def replace_join sep_free_def)

lemma rel_str_root: "lowers_by_segment lo \<Longrightarrow> rel_str lo [] = ''.''"
  by (simp add: rel_str_def path_str_def replace_slash_def fslash_def lowers_by_segment_def)

lemma join_dot:
  assumes "\<forall>n \<in> set q. bslash \<notin> set n" and "q \<noteq> []" and "join_with bslash q = ''.''"
  shows "q = [''.'']"
proof -
  have "\<forall>n \<in> set [''.'']. bslash \<notin> set n" by (simp add: bslash_def)
  moreover have "join_with bslash q = join_with bslash [''.'']" using assms(3) by simp
  ultimately show ?thesis using join_inj[of q bslash "[''.'']"] assms(1,2) by simp
qed

lemma prefix_match:
  assumes lo: "lowers_by_segment lo"
    and q: "\<forall>n \<in> set q. sep_free n" "q \<noteq> []" "q \<noteq> [''.'']"
    and p: "\<forall>n \<in> set p. sep_free n"
  shows "rel_str lo p = rel_str lo q \<or> prefix (rel_str lo q @ [bslash]) (rel_str lo p) \<longleftrightarrow>
         prefix (map lo q) (map lo p)"
proof -
  have free: "bslash \<notin> set (lo n)" if "sep_free n" for n
    using that lo unfolding lowers_by_segment_def sep_free_def by blast
  have dot: "lo n = ''.'' \<Longrightarrow> n = ''.''" for n
    using lo unfolding lowers_by_segment_def by blast
  have lq: "\<forall>n \<in> set (map lo q). bslash \<notin> set n"
    using q(1) free by auto
  have lp: "\<forall>n \<in> set (map lo p). bslash \<notin> set n"
    using p free by auto
  have sq: "rel_str lo q = join_with bslash (map lo q)" using rel_str_segments[OF lo q(1,2)] .
  show ?thesis
  proof (cases "p = []")
    case True
    have "join_with bslash (map lo q) \<noteq> ''.''"
    proof
      assume "join_with bslash (map lo q) = ''.''"
      then have "map lo q = [''.'']" using join_dot[OF lq] q(2) by simp
      then have "q = [''.'']" by (cases q) (auto dest: dot)
      with q(3) show False by simp
    qed
    moreover have "\<not> prefix (join_with bslash (map lo q) @ [bslash]) ''.''"
    proof -
      have "bslash \<notin> set ''.''" by (simp add: bslash_def)
      from sep_not_prefix[OF this, of "join_with bslash (map lo q)" "[]"] show ?thesis .
    qed
    moreover have "\<not> prefix (map lo q) (map lo p)" using q(2) True by simp
    ultimately show ?thesis
      unfolding True rel_str_root[OF lo] sq by (simp only: simp_thms eq_commute[of "''.''"])
  next
    case False
    have sp: "rel_str lo p = join_with bslash (map lo p)" using rel_str_segments[OF lo p False] .
    have "join_with bslash (map lo p) = join_with bslash (map lo q) \<longleftrightarrow>
          map lo p = map lo q"
      by (rule join_inj[OF lp lq]) (use False q(2) in simp_all)
    moreover have "prefix (join_with bslash (map lo q) @ [bslash]) (join_with bslash (map lo p)) \<longleftrightarrow>
          strict_prefix (map lo q) (map lo p)"
      by (rule join_prefix[OF lp lq]) (use False q(2) in simp_all)
    ultimately show ?thesis unfolding sp sq strict_prefix_def by (metis prefix_order.order_refl)
  qed
qed

lemma is_under_specific_segments:
  assumes lo: "lowers_by_segment (str_lower w)"
    and sp: "specific_excl P = map (rel_str (str_lower w)) qs"
    and qs: "\<forall>q \<in> set qs. q \<noteq> [] \<and> q \<noteq> [''.''] \<and> (\<forall>n \<in> set q. sep_free n)"
    and p: "\<forall>n \<in> set p. sep_free n"
  shows "is_under_specific P w p \<longleftrightarrow>
         (\<exists>q \<in> set qs. prefix (map (str_lower w) q) (map (str_lower w) p))"
proof -
  have "is_under_specific P w p \<longleftrightarrow>
        (\<exists>q \<in> set qs. rel_str (str_lower w) p = rel_str (str_lower w) q \<or>
           prefix (rel_str (str_lower w) q @ [bslash]) (rel_str (str_lower w) p))"
    by (auto simp: is_under_specific_def sp list_ex_iff)
  also have "\<dots> \<longleftrightarrow> (\<exists>q \<in> set qs. prefix (map (str_lower w) q) (map (str_lower w) p))"
    using prefix_match[OF lo _ _ _ p] qs by (intro bex_cong refl) auto
  finally show ?thesis .
qed

lemma specific_entry:
  assumes wf: "wf_tree t" and r: "reach P w [] t p = Some (Dir fs cs)"
    and us: "is_under_specific P w p"
  shows "filter (\<lambda>x. src (fst x) = src_root P @ p) (items_of (walk P w [] t)) =
           [specific_item P p]"
proof (cases p rule: rev_cases)
  case Nil
  then have "t = Dir fs cs" using r by simp
  then show ?thesis using us Nil
    by (simp add: walk_specific specific_item_def PlanItem_def)
next
  case (snoc p0 d)
  from r obtain u where u: "reach P w [] t p0 = Some u" "reach P w p0 u [d] = Some (Dir fs cs)"
    unfolding snoc reach_append by auto
  from u(2) obtain fs0 cs0 where u0: "u = Dir fs0 cs0" "\<not> is_under_specific P w p0"
      "kept P w p0 d" "map_of cs0 d = Some (Dir fs cs)"
    unfolding reach_Cons_iff by auto
  have wf0: "wf_tree (Dir fs0 cs0)" using reach_wf[OF wf u(1)] u0(1) by simp
  then have dist: "distinct (fs0 @ map fst cs0)" by simp
  have din: "d \<in> fst ` set cs0" using map_of_SomeD[OF u0(4)] by force
  then have nf: "d \<notin> set fs0" using dist by auto
  have "filter (\<lambda>x. src (fst x) = src_root P @ [] @ p0 @ d # []) (items_of (walk P w [] t)) =
        filter (\<lambda>x. src (fst x) = src_root P @ [] @ p0 @ d # []) (items_of (walk P w ([] @ p0) u))"
    by (rule descend_filter[OF wf u(1)])
  then have "filter (\<lambda>x. src (fst x) = src_root P @ p0 @ [d]) (items_of (walk P w [] t)) =
        filter (\<lambda>x. src (fst x) = src_root P @ p0 @ [d]) (items_of (walk P w p0 (Dir fs0 cs0)))"
    by (simp add: u0(1))
  also have "\<dots> = filter (\<lambda>x. src (fst x) = src_root P @ p0 @ [d])
                     (items_of (walk P w (p0 @ [d]) (Dir fs cs)))"
    unfolding level_filter[OF u0(2) dist] using u0(3,4) nf
    by (auto simp: kept_def)
  also have "\<dots> = [specific_item P (p0 @ [d])]"
    using us by (simp add: snoc walk_specific specific_item_def PlanItem_def)
  finally show ?thesis by (simp add: snoc)
qed

lemma unwalked_entry:
  assumes wf: "wf_tree t" and r: "reach P w [] t p = Some Unwalked"
  shows "filter (\<lambda>x. src (fst x) = src_root P @ p) (items_of (walk P w [] t)) = []"
proof (cases p rule: rev_cases)
  case Nil
  then have "t = Unwalked" using r by simp
  then show ?thesis by simp
next
  case (snoc p0 d)
  from r obtain u where u: "reach P w [] t p0 = Some u" "reach P w p0 u [d] = Some Unwalked"
    unfolding snoc reach_append by auto
  from u(2) obtain fs0 cs0 where u0: "u = Dir fs0 cs0" "\<not> is_under_specific P w p0"
      "kept P w p0 d" "map_of cs0 d = Some Unwalked"
    unfolding reach_Cons_iff by auto
  have wf0: "wf_tree (Dir fs0 cs0)" using reach_wf[OF wf u(1)] u0(1) by simp
  then have dist: "distinct (fs0 @ map fst cs0)" by simp
  have din: "d \<in> fst ` set cs0" using map_of_SomeD[OF u0(4)] by force
  then have nf: "d \<notin> set fs0" using dist by auto
  have "filter (\<lambda>x. src (fst x) = src_root P @ [] @ p0 @ d # []) (items_of (walk P w [] t)) =
        filter (\<lambda>x. src (fst x) = src_root P @ [] @ p0 @ d # []) (items_of (walk P w ([] @ p0) u))"
    by (rule descend_filter[OF wf u(1)])
  then have "filter (\<lambda>x. src (fst x) = src_root P @ p0 @ [d]) (items_of (walk P w [] t)) =
        filter (\<lambda>x. src (fst x) = src_root P @ p0 @ [d]) (items_of (walk P w p0 (Dir fs0 cs0)))"
    by (simp add: u0(1))
  also have "\<dots> = []"
    unfolding level_filter[OF u0(2) dist] using u0(3,4) nf
    by (auto simp: kept_def)
  finally show ?thesis by (simp add: snoc)
qed

section \<open>Errors met while planning\<close>

lemma file_item_unreadable:
  assumes "\<not> is_file_excluded P w f" and "src_stat w (src_root P @ q @ [f]) = Inl e"
  shows "file_item P w q f =
           Inr (PlanItem EXCLUDE (src_root P @ q @ [f]) (dst_root P @ q @ [f])
                  (''unreadable: '' @ err_text e),
                [StatSrc (src_root P @ q @ [f])])"
  using assms by (simp add: file_item_def Let_def decide_def)

lemma file_item_dst_unreadable:
  assumes "\<not> is_file_excluded P w f" and "src_stat w (src_root P @ q @ [f]) = Inr s"
    and "dst_exists w (dst_root P @ q @ [f]) = Inr True"
    and "dst_stat w (dst_root P @ q @ [f]) = Inl e"
  shows "file_item P w q f =
           Inr (PlanItem UPDATE (src_root P @ q @ [f]) (dst_root P @ q @ [f])
                  (''dst unreadable: '' @ err_text e),
                [StatSrc (src_root P @ q @ [f]), DstExists (dst_root P @ q @ [f]),
                 StatDst (dst_root P @ q @ [f])])"
  using assms by (simp add: file_item_def Let_def decide_def)

lemma file_in_walk:
  assumes "reach P w [] t q = Some (Dir fs cs)" and "\<not> is_under_specific P w q" and "f \<in> set fs"
  shows "file_item P w q f \<in> set (walk P w [] t)"
proof -
  have "file_item P w q f \<in> set (walk P w q (Dir fs cs))"
    using assms(2,3) by (simp add: walk_open)
  then show ?thesis using reach_subset[OF assms(1)] by auto
qed

lemma file_in_plan:
  assumes "plan P w t = Inr items" and "reach P w [] t q = Some (Dir fs cs)"
    and "\<not> is_under_specific P w q" and "f \<in> set fs"
  shows "\<exists>x. file_item P w q f = Inr x \<and> fst x \<in> set items"
proof -
  from assms(1) have "\<exists>xs. run_steps (walk P w [] t) = Inr xs"
    by (auto simp: plan_def plan_calls_def split: sum.splits if_splits)
  then obtain xs where "walk P w [] t = map Inr xs" using run_steps_Inr by blast
  with file_in_walk[OF assms(2,3,4)] obtain x where x: "file_item P w q f = Inr x"
    by auto
  then have "x \<in> set (items_of (walk P w [] t))"
    using file_in_walk[OF assms(2,3,4)] by (simp add: set_items_of)
  moreover have "items = map fst (items_of (walk P w [] t))"
    using plan_items[OF assms(1)] by simp
  ultimately show ?thesis using x by auto
qed

lemma walk_raise:
  assumes "Inl (e, c) \<in> set (walk P w [] t)"
  shows "\<exists>q f. dst_exists w (dst_root P @ q @ [f]) = Inl e"
proof -
  from walk_origin[OF assms] obtain r where "emitted_at P w ([] @ r) (Inl (e, c))" by blast
  then show ?thesis using emitted_raise[of P w r e c] by auto
qed

lemma plan_raised:
  assumes "plan P w t = Inl (Raised e)"
  shows "src_root_exists w = Inl e \<or> (\<exists>q f. dst_exists w (dst_root P @ q @ [f]) = Inl e)"
proof (cases "src_root_exists w")
  case (Inl e')
  with assms show ?thesis by (simp add: plan_def plan_calls_def)
next
  case (Inr b)
  with assms have "run_steps (walk P w [] t) = Inl e"
    by (auto simp: plan_def plan_calls_def split: if_splits sum.splits)
  then obtain c where "Inl (e, c) \<in> set (walk P w [] t)" using run_steps_Inl by blast
  then show ?thesis using walk_raise by blast
qed

lemma plan_completes:
  assumes "src_root_exists w = Inr True"
    and "\<forall>q f e. dst_exists w (dst_root P @ q @ [f]) \<noteq> Inl e"
  shows "plan P w t = Inr (map fst (items_of (walk P w [] t)))"
proof -
  have "\<forall>y. Inl y \<notin> set (walk P w [] t)"
  proof (intro allI notI)
    fix y assume y: "Inl y \<in> set (walk P w [] t)"
    obtain e c where "y = (e, c)" by (cases y)
    with y walk_raise[of e c P w t] assms(2) show False by blast
  qed
  then have "run_steps (walk P w [] t) = Inr (items_of (walk P w [] t))"
    by (rule run_steps_no_raise)
  with assms(1) show ?thesis by (simp add: plan_def plan_calls_def)
qed

section \<open>The operations of the applier, one by one\<close>

lemma temp_path_neq: "temp_path d \<noteq> d"
proof (cases d rule: rev_cases)
  case Nil
  then show ?thesis by (simp add: temp_path_def)
next
  case (snoc b l)
  then show ?thesis by (simp add: temp_path_def)
qed

lemma temp_path_nonempty: "temp_path d \<noteq> []"
  by (simp add: temp_path_def)

lemma dst_not_prefix_parent: "d \<noteq> [] \<Longrightarrow> \<not> prefix d (parent d)"
  by (cases d rule: rev_cases) (auto simp: parent_def prefix_def)

lemma os_mkdir_frame:
  "os_mkdir w f p = (r, f') \<Longrightarrow> x \<noteq> p \<Longrightarrow> f' x = f x"
  by (auto simp: os_mkdir_def split: option.splits)

lemma os_mkdir_at:
  "os_mkdir w f p = (r, f') \<Longrightarrow> f' p = f p \<or> f' p = Some Directory"
  by (auto simp: os_mkdir_def split: option.splits)

lemma os_mkdir_ok:
  "os_mkdir w f p = (None, f') \<Longrightarrow> f' p = Some Directory"
  by (auto simp: os_mkdir_def split: option.splits)

lemma os_mkdir_files:
  assumes "os_mkdir w f p = (r, f')" and "f p = None"
  shows "f' x = f x \<or> (f x = None \<and> f' x = Some Directory)"
proof (cases "x = p")
  case True
  then show ?thesis using assms os_mkdir_at[OF assms(1)] by auto
next
  case False
  then show ?thesis using os_mkdir_frame[OF assms(1)] by simp
qed

lemma mkdir_rev_frame:
  "mkdir_rev w f rp = (r, f') \<Longrightarrow> \<not> prefix x (rev rp) \<Longrightarrow> f' x = f x"
proof (induction rp arbitrary: r f')
  case Nil
  then show ?case by simp
next
  case (Cons s rp)
  have np: "\<not> prefix x (rev rp)" using Cons.prems(2) by (auto simp: prefix_def)
  have ne: "x \<noteq> rev (s # rp)" using Cons.prems(2) by auto
  show ?case
  proof (cases "node_at f (rev (s # rp))")
    case (Some n)
    then show ?thesis using Cons.prems(1) by (cases n) auto
  next
    case None
    note top = None
    show ?thesis
    proof (cases "node_at f (rev rp)")
      case (Some n)
      then show ?thesis using Cons.prems(1) top ne
        by (cases n) (auto dest: os_mkdir_frame)
    next
      case None
      obtain r1 f1 where m: "mkdir_rev w f rp = (r1, f1)" by (cases "mkdir_rev w f rp")
      have f1: "f1 x = f x" using Cons.IH[OF m np] .
      show ?thesis
      proof (cases r1)
        case (Some e)
        then show ?thesis using Cons.prems(1) top None m f1 by auto
      next
        case None': None
        then have "os_mkdir w f1 (rev (s # rp)) = (r, f')"
          using Cons.prems(1) top None m by auto
        from os_mkdir_frame[OF this ne] f1 show ?thesis by simp
      qed
    qed
  qed
qed

lemma mkdir_rev_files:
  "mkdir_rev w f rp = (r, f') \<Longrightarrow> f' x = f x \<or> (f x = None \<and> f' x = Some Directory)"
proof (induction rp arbitrary: r f')
  case Nil
  then show ?case by simp
next
  case (Cons s rp)
  show ?case
  proof (cases "node_at f (rev (s # rp))")
    case (Some n)
    then show ?thesis using Cons.prems(1) by (cases n) auto
  next
    case None
    note top = None
    then have ftop: "f (rev (s # rp)) = None" by (simp add: node_at_def split: if_splits)
    show ?thesis
    proof (cases "node_at f (rev rp)")
      case (Some n)
      show ?thesis
      proof (cases n)
        case (File c a m)
        then show ?thesis using Cons.prems(1) top Some by auto
      next
        case Directory
        then have "os_mkdir w f (rev (s # rp)) = (r, f')"
          using Cons.prems(1) top Some by auto
        from os_mkdir_files[OF this ftop] show ?thesis .
      qed
    next
      case None
      obtain r1 f1 where m: "mkdir_rev w f rp = (r1, f1)" by (cases "mkdir_rev w f rp")
      have f1: "f1 x = f x \<or> (f x = None \<and> f1 x = Some Directory)" using Cons.IH[OF m] .
      have f1top: "f1 (rev (s # rp)) = None"
        using mkdir_rev_frame[OF m, of "rev (s # rp)"] ftop by (auto simp: prefix_def)
      show ?thesis
      proof (cases r1)
        case (Some e)
        then show ?thesis using Cons.prems(1) top None m f1 by auto
      next
        case None': None
        then have "os_mkdir w f1 (rev (s # rp)) = (r, f')"
          using Cons.prems(1) top None m by auto
        from os_mkdir_files[OF this f1top, of x] f1 show ?thesis by auto
      qed
    qed
  qed
qed

lemma mkdir_rev_ok:
  "mkdir_rev w f rp = (None, f') \<Longrightarrow> node_at f' (rev rp) = Some Directory"
proof (cases rp)
  case Nil
  then show ?thesis by (simp add: node_at_def)
next
  case (Cons s rp')
  assume a: "mkdir_rev w f rp = (None, f')"
  show ?thesis
  proof (cases "node_at f (rev (s # rp'))")
    case (Some n)
    then show ?thesis using a Cons by (cases n) auto
  next
    case None
    note top = None
    have ne: "rev (s # rp') \<noteq> []" by simp
    show ?thesis
    proof (cases "node_at f (rev rp')")
      case (Some n)
      then show ?thesis using a Cons top
        by (cases n) (auto simp: node_at_def dest: os_mkdir_ok)
    next
      case None
      obtain r1 f1 where m: "mkdir_rev w f rp' = (r1, f1)" by (cases "mkdir_rev w f rp'")
      show ?thesis
      proof (cases r1)
        case (Some e)
        then show ?thesis using a Cons top None m by auto
      next
        case None': None
        then have "os_mkdir w f1 (rev (s # rp')) = (None, f')"
          using a Cons top None m by auto
        from os_mkdir_ok[OF this] show ?thesis using Cons by (simp add: node_at_def)
      qed
    qed
  qed
qed

lemma mkdir_parents_frame:
  "mkdir_parents w f p = (r, f') \<Longrightarrow> \<not> prefix x p \<Longrightarrow> f' x = f x"
  using mkdir_rev_frame[of w f "rev p" r f' x] by (simp add: mkdir_parents_def)

lemma mkdir_parents_files:
  "mkdir_parents w f p = (r, f') \<Longrightarrow> f' x = f x \<or> (f x = None \<and> f' x = Some Directory)"
  using mkdir_rev_files[of w f "rev p" r f' x] by (simp add: mkdir_parents_def)

lemma mkdir_parents_ok:
  "mkdir_parents w f p = (None, f') \<Longrightarrow> node_at f' p = Some Directory"
  using mkdir_rev_ok[of w f "rev p" f'] by (simp add: mkdir_parents_def)

lemma copyfile_frame:
  "copyfile w f s t = (r, f') \<Longrightarrow> x \<noteq> t \<Longrightarrow> f' x = f x"
  by (auto simp: copyfile_def split: sum.splits if_splits option.splits prod.splits)

lemma copyfile_ok:
  "copyfile w f s t = (None, f') \<Longrightarrow>
   \<exists>bytes. read_src w s = Inr bytes \<and> f' t = Some (File bytes (now w) (now w))"
  by (auto simp: copyfile_def split: sum.splits if_splits option.splits prod.splits)

lemma utime_frame:
  "utime w f t a m = (r, f') \<Longrightarrow> x \<noteq> t \<Longrightarrow> f' x = f x"
  by (auto simp: utime_def split: option.splits node.splits)

lemma utime_ok:
  "utime w f t a m = (None, f') \<Longrightarrow> f t = Some (File c a0 m0) \<Longrightarrow> t \<noteq> [] \<Longrightarrow>
   f' t = Some (File c a m)"
  by (auto simp: utime_def node_at_def split: option.splits node.splits)

lemma replace_fail:
  "replace w f t d = (Some e, f') \<Longrightarrow> f' = f"
  by (auto simp: replace_def split: option.splits node.splits if_splits)

lemma replace_ok:
  "replace w f t d = (None, f') \<Longrightarrow> t \<noteq> [] \<Longrightarrow>
   \<exists>c a m. f t = Some (File c a m) \<and> f' = (f(t := None))(d \<mapsto> File c a m)"
  by (auto simp: replace_def node_at_def split: option.splits node.splits if_splits)

lemma remove_frame:
  "remove w f t = (r, f') \<Longrightarrow> x \<noteq> t \<Longrightarrow> f' x = f x"
  by (auto simp: remove_def split: option.splits node.splits)

lemma remove_ok:
  "remove w f t = (None, f') \<Longrightarrow> f' t = None"
  by (auto simp: remove_def split: option.splits node.splits)

lemma preserve_times_frame:
  "preserve_times w pm f s t = (r, f') \<Longrightarrow> x \<noteq> t \<Longrightarrow> f' x = f x"
  by (auto simp: preserve_times_def split: if_splits sum.splits dest: utime_frame)

text \<open>The body of the try: what it leaves behind.\<close>

lemma copy_steps_frame:
  assumes "copy_steps w pm f s t d = (r, f')" and "x \<noteq> t" and "x \<noteq> d" and "t \<noteq> []"
  shows "f' x = f x"
proof -
  obtain r1 f1 where c: "copyfile w f s t = (r1, f1)" by (cases "copyfile w f s t")
  have f1: "f1 x = f x" using copyfile_frame[OF c assms(2)] .
  show ?thesis
  proof (cases r1)
    case (Some e)
    then show ?thesis using assms(1) c f1 by (simp add: copy_steps_def)
  next
    case None
    obtain r2 f2 where u: "preserve_times w pm f1 s t = (r2, f2)"
      by (cases "preserve_times w pm f1 s t")
    have f2: "f2 x = f x"
      using preserve_times_frame[OF u assms(2)] f1 by simp
    show ?thesis
    proof (cases r2)
      case (Some e)
      then show ?thesis using assms(1) c None u f2 by (simp add: copy_steps_def)
    next
      case None': None
      then have rp: "replace w f2 t d = (r, f')"
        using assms(1) c None u by (simp add: copy_steps_def)
      show ?thesis
      proof (cases r)
        case (Some e)
        then show ?thesis using replace_fail rp f2 by blast
      next
        case None'': None
        from replace_ok[OF rp[unfolded None''] assms(4)] assms(2,3) f2 show ?thesis by auto
      qed
    qed
  qed
qed

lemma copy_steps_fail_dst:
  assumes "copy_steps w pm f s t d = (Some e, f')" and "t \<noteq> d"
  shows "f' d = f d"
proof -
  obtain r1 f1 where c: "copyfile w f s t = (r1, f1)" by (cases "copyfile w f s t")
  have f1: "f1 d = f d" using copyfile_frame[OF c] assms(2) by auto
  show ?thesis
  proof (cases r1)
    case (Some e1)
    then show ?thesis using assms(1) c f1 by (simp add: copy_steps_def)
  next
    case None
    obtain r2 f2 where u: "preserve_times w pm f1 s t = (r2, f2)"
      by (cases "preserve_times w pm f1 s t")
    have f2: "f2 d = f d"
      using preserve_times_frame[OF u, of d] assms(2) f1 by auto
    show ?thesis
    proof (cases r2)
      case (Some e2)
      then show ?thesis using assms(1) c None u f2 by (simp add: copy_steps_def)
    next
      case None': None
      then have rp: "replace w f2 t d = (Some e, f')"
        using assms(1) c None u by (simp add: copy_steps_def)
      then show ?thesis using replace_fail f2 by blast
    qed
  qed
qed

lemma copy_steps_ok:
  assumes "copy_steps w pm f s t d = (None, f')" and "t \<noteq> d" and "t \<noteq> []"
  shows "\<exists>bytes a m. read_src w s = Inr bytes \<and> f' d = Some (File bytes a m) \<and> f' t = None \<and>
           (if pm then \<exists>st. src_stat w s = Inr st \<and> a = st_atime st \<and> m = st_mtime st
            else a = now w \<and> m = now w)"
proof -
  obtain r1 f1 where c: "copyfile w f s t = (r1, f1)" by (cases "copyfile w f s t")
  have r1: "r1 = None" using assms(1) c by (cases r1) (auto simp: copy_steps_def)
  from copyfile_ok[OF c[unfolded r1]] obtain bytes where
    b: "read_src w s = Inr bytes" "f1 t = Some (File bytes (now w) (now w))" by blast
  obtain r2 f2 where u: "preserve_times w pm f1 s t = (r2, f2)"
    by (cases "preserve_times w pm f1 s t")
  have r2: "r2 = None" using assms(1) c r1 u by (cases r2) (auto simp: copy_steps_def)
  have rp: "replace w f2 t d = (None, f')"
    using assms(1) c r1 u r2 by (simp add: copy_steps_def)
  have f2: "\<exists>a m. f2 t = Some (File bytes a m) \<and>
           (if pm then \<exists>st. src_stat w s = Inr st \<and> a = st_atime st \<and> m = st_mtime st
            else a = now w \<and> m = now w)"
  proof (cases pm)
    case False
    then show ?thesis using u b by (auto simp: preserve_times_def)
  next
    case True
    then obtain st where st: "src_stat w s = Inr st"
      using u r2 by (cases "src_stat w s") (auto simp: preserve_times_def)
    then have "utime w f1 t (st_atime st) (st_mtime st) = (None, f2)"
      using u r2 True by (simp add: preserve_times_def)
    from utime_ok[OF this b(2) assms(3)] st True show ?thesis by auto
  qed
  from f2 obtain a m where am: "f2 t = Some (File bytes a m)"
      "if pm then \<exists>st. src_stat w s = Inr st \<and> a = st_atime st \<and> m = st_mtime st
       else a = now w \<and> m = now w"
    by blast
  from replace_ok[OF rp assms(3)] am(1) have f': "f' = (f2(t := None))(d \<mapsto> File bytes a m)"
    by auto
  have "f' d = Some (File bytes a m)" and "f' t = None"
    using assms(2) by (simp_all add: f')
  with b(1) am(2) show ?thesis by blast
qed

text \<open>The clean-up of the except clauses.\<close>

lemma cleanup_frame:
  "cleanup w f t e = (e', f') \<Longrightarrow> x \<noteq> t \<Longrightarrow> f' x = f x"
  by (auto simp: cleanup_def split: if_splits prod.splits option.splits dest: remove_frame)

lemma cleanup_ok:
  assumes "cleanup w f t e = (e', f')" and "path_exists f t \<longrightarrow> fst (remove w f t) = None"
    and "t \<noteq> []"
  shows "e' = e \<and> f' t = None"
proof (cases "path_exists f t")
  case True
  obtain r2 f2 where r: "remove w f t = (r2, f2)" by (cases "remove w f t")
  with assms(2) True have "r2 = None" by simp
  with r assms(1) True remove_ok[of w f t f2] show ?thesis
    by (auto simp: cleanup_def)
next
  case False
  then show ?thesis using assms(1,3) by (auto simp: cleanup_def path_exists_def node_at_def)
qed

section \<open>One item, and the list of items\<close>

lemma temp_not_parent: "temp_path d \<noteq> parent d"
proof
  assume "temp_path d = parent d"
  then have "length (temp_path d) = length (parent d)" by simp
  then show False by (simp add: temp_path_def parent_def)
qed

lemma apply_item_noop:
  "action it = SKIP \<or> action it = EXCLUDE \<Longrightarrow> apply_item w pm f it = (None, f)"
  by (auto simp: apply_item_def)

lemma apply_item_mkdir_fail:
  assumes "action it = ADD \<or> action it = UPDATE"
    and "mkdir_parents w f (parent (dst it)) = (Some e, f0)"
  shows "apply_item w pm f it = (Some e, f0)"
  using assms by (auto simp: apply_item_def)

lemma apply_item_unfold:
  assumes "action it = ADD \<or> action it = UPDATE"
    and "mkdir_parents w f (parent (dst it)) = (None, f0)"
  shows "apply_item w pm f it =
     (case copy_steps w pm f0 (src it) (temp_path (dst it)) (dst it) of
        (None, f1) \<Rightarrow> (None, f1)
      | (Some e, f1) \<Rightarrow>
          (Some (fst (cleanup w f1 (temp_path (dst it)) e)),
           snd (cleanup w f1 (temp_path (dst it)) e)))"
  using assms
  by (auto simp: apply_item_def split: prod.splits option.splits oserr.splits)

lemma apply_item_ok:
  assumes act: "action it = ADD \<or> action it = UPDATE"
    and ok: "apply_item w pm f it = (None, f')"
  shows "node_at f' (parent (dst it)) = Some Directory \<and> f' (temp_path (dst it)) = None \<and>
       (\<exists>bytes a m. read_src w (src it) = Inr bytes \<and> f' (dst it) = Some (File bytes a m) \<and>
          (if pm then \<exists>st. src_stat w (src it) = Inr st \<and> a = st_atime st \<and> m = st_mtime st
           else a = now w \<and> m = now w)) \<and>
       (\<forall>x. x \<noteq> dst it \<and> x \<noteq> temp_path (dst it) \<longrightarrow>
          f' x = f x \<or> f x = None \<and> f' x = Some Directory)"
proof -
  let ?d = "dst it" and ?t = "temp_path (dst it)"
  obtain r0 f0 where m: "mkdir_parents w f (parent ?d) = (r0, f0)"
    by (cases "mkdir_parents w f (parent ?d)")
  have r0: "r0 = None"
    using apply_item_mkdir_fail[OF act, of w f _ f0 pm] m ok by (cases r0) auto
  note m = m[unfolded r0]
  obtain r1 f1 where c: "copy_steps w pm f0 (src it) ?t ?d = (r1, f1)"
    by (cases "copy_steps w pm f0 (src it) ?t ?d")
  have r1: "r1 = None" and f1: "f1 = f'"
    using apply_item_unfold[OF act m, of pm] ok c by (cases r1; simp)+
  note c = c[unfolded r1 f1]
  have par: "node_at f' (parent ?d) = Some Directory"
  proof (cases "parent ?d = []")
    case True
    then show ?thesis by (simp add: node_at_def)
  next
    case False
    have dne: "parent ?d \<noteq> ?d"
    proof
      assume "parent ?d = ?d"
      then have "butlast ?d = ?d" by (simp add: parent_def)
      then have "?d = []" by (cases "dst it" rule: rev_cases) simp_all
      with False show False by (simp add: parent_def)
    qed
    have "f' (parent ?d) = f0 (parent ?d)"
      using copy_steps_frame[OF c _ _ temp_path_nonempty, of "parent ?d"] temp_not_parent[of ?d] dne
      by auto
    with mkdir_parents_ok[OF m] False show ?thesis by (simp add: node_at_def)
  qed
  have fr: "\<forall>x. x \<noteq> ?d \<and> x \<noteq> ?t \<longrightarrow> f' x = f x \<or> f x = None \<and> f' x = Some Directory"
  proof (intro allI impI)
    fix x assume x: "x \<noteq> ?d \<and> x \<noteq> ?t"
    then have "f' x = f0 x" using copy_steps_frame[OF c _ _ temp_path_nonempty, of x] by simp
    with mkdir_parents_files[OF m, of x] show "f' x = f x \<or> f x = None \<and> f' x = Some Directory"
      by simp
  qed
  from copy_steps_ok[OF c temp_path_neq temp_path_nonempty] par fr show ?thesis by blast
qed

lemma apply_item_fail:
  assumes act: "action it = ADD \<or> action it = UPDATE" and dne: "dst it \<noteq> []"
    and m: "mkdir_parents w f (parent (dst it)) = (None, f0)"
    and c: "copy_steps w pm f0 (src it) (temp_path (dst it)) (dst it) = (Some e, f1)"
  shows "fst (apply_item w pm f it) \<noteq> None \<and>
       snd (apply_item w pm f it) (dst it) = f (dst it) \<and>
       (\<forall>x. x \<noteq> temp_path (dst it) \<longrightarrow> snd (apply_item w pm f it) x = f0 x) \<and>
       ((path_exists f1 (temp_path (dst it)) \<longrightarrow> fst (remove w f1 (temp_path (dst it))) = None) \<longrightarrow>
          fst (apply_item w pm f it) = Some e \<and>
          snd (apply_item w pm f it) (temp_path (dst it)) = None)"
proof -
  let ?d = "dst it" and ?t = "temp_path (dst it)"
  obtain e' f2 where cl: "cleanup w f1 ?t e = (e', f2)" by (cases "cleanup w f1 ?t e")
  have ai: "apply_item w pm f it = (Some e', f2)"
    using apply_item_unfold[OF act m, of pm] c cl by simp
  have f0d: "f0 ?d = f ?d"
    using mkdir_parents_frame[OF m dst_not_prefix_parent[OF dne]] .
  have f1x: "f1 x = f0 x" if "x \<noteq> ?t" for x
  proof (cases "x = ?d")
    case True
    then show ?thesis using copy_steps_fail_dst[OF c temp_path_neq] by simp
  next
    case False
    then show ?thesis using copy_steps_frame[OF c that _ temp_path_nonempty] by simp
  qed
  have f2x: "f2 x = f0 x" if "x \<noteq> ?t" for x
    using cleanup_frame[OF cl that] f1x[OF that] by simp
  have d: "f2 ?d = f ?d" using f2x[of ?d] temp_path_neq[of ?d] f0d by auto
  have ok: "e' = e \<and> f2 ?t = None"
    if "path_exists f1 ?t \<longrightarrow> fst (remove w f1 ?t) = None"
    using cleanup_ok[OF cl that temp_path_nonempty] .
  from d f2x ok show ?thesis unfolding ai by simp
qed

lemma apply_plan_append_fail:
  assumes "apply_plan w pm xs f = (None, f1)" and "apply_item w pm f1 it = (Some e, f2)"
  shows "apply_plan w pm (xs @ it # ys) f = (Some e, f2)"
  using assms
proof (induction xs arbitrary: f)
  case Nil
  then show ?case by simp
next
  case (Cons x xs)
  obtain r g where x: "apply_item w pm f x = (r, g)" by (cases "apply_item w pm f x")
  with Cons.prems(1) have r: "r = None" by (cases r) auto
  with x Cons.prems(1) have "apply_plan w pm xs g = (None, f1)" by simp
  from Cons.IH[OF this Cons.prems(2)] x r show ?case by simp
qed

section \<open>Planning again after an apply\<close>

lemma apply_plan_append:
  "apply_plan w pm (xs @ ys) f =
     (case apply_plan w pm xs f of
        (Some e, g) \<Rightarrow> (Some e, g)
      | (None, g) \<Rightarrow> apply_plan w pm ys g)"
  by (induction xs arbitrary: f) (auto split: prod.splits option.splits)

lemma apply_item_keeps_file:
  assumes "apply_item w pm f it = (None, f')" and "f x = Some (File c a m)"
    and "action it = ADD \<or> action it = UPDATE \<longrightarrow> dst it \<noteq> x \<and> temp_path (dst it) \<noteq> x"
  shows "f' x = Some (File c a m)"
proof (cases "action it = ADD \<or> action it = UPDATE")
  case True
  with assms(3) have ne: "x \<noteq> dst it \<and> x \<noteq> temp_path (dst it)" by auto
  from apply_item_ok[OF True assms(1)]
  have "\<forall>x. x \<noteq> dst it \<and> x \<noteq> temp_path (dst it) \<longrightarrow>
          f' x = f x \<or> f x = None \<and> f' x = Some Directory"
    by (elim conjE)
  from this[rule_format, OF ne] assms(2) show ?thesis by auto
next
  case False
  then have "action it = SKIP \<or> action it = EXCLUDE" by (cases "action it") auto
  from apply_item_noop[OF this, of w pm f] assms(1,2) show ?thesis by simp
qed

lemma apply_plan_keeps_file:
  assumes "apply_plan w pm ys f = (None, f')" and "f x = Some (File c a m)"
    and "\<forall>y \<in> set ys. action y = ADD \<or> action y = UPDATE \<longrightarrow>
           dst y \<noteq> x \<and> temp_path (dst y) \<noteq> x"
  shows "f' x = Some (File c a m)"
  using assms
proof (induction ys arbitrary: f)
  case Nil
  then show ?case by simp
next
  case (Cons y ys)
  obtain r g where y: "apply_item w pm f y = (r, g)" by (cases "apply_item w pm f y")
  with Cons.prems(1) have r: "r = None" by (cases r) auto
  have g: "g x = Some (File c a m)"
    using apply_item_keeps_file[OF y[unfolded r] Cons.prems(2)] Cons.prems(3) by simp
  have "apply_plan w pm ys g = (None, f')" using Cons.prems(1) y r by simp
  from Cons.IH[OF this g] Cons.prems(3) show ?case by simp
qed

text \<open>
  What does hold: an item that was applied, and whose destination no later item uses
  as its destination or as its temporary name, is skipped when the unchanged source is
  planned against the destination the run left (the difference of a float with itself
  being within the tolerance).
\<close>

lemma replan_skips_applied_item:
  assumes ok: "apply_plan w True (xs @ it # ys) f = (None, f')"
    and act: "action it = ADD \<or> action it = UPDATE" and dne: "dst it \<noteq> []"
    and later: "\<forall>y \<in> set ys. action y = ADD \<or> action y = UPDATE \<longrightarrow>
           dst y \<noteq> dst it \<and> temp_path (dst y) \<noteq> dst it"
    and st: "src_stat w (src it) = Inr st" and rd: "read_src w (src it) = Inr bytes"
    and sz: "st_size st = length bytes"
    and same: "\<bar>float_sub w (st_mtime st) (st_mtime st)\<bar> \<le> 2"
  shows "decide (observe f' w) (src it) (dst it) =
           Inr ((SKIP, ''same size+mtime''),
                [StatSrc (src it), DstExists (dst it), StatDst (dst it)])"
proof -
  obtain r1 g1 where x: "apply_plan w True xs f = (r1, g1)" by (cases "apply_plan w True xs f")
  have r1: "r1 = None" using ok x by (cases r1) (auto simp: apply_plan_append)
  obtain r2 g2 where i: "apply_item w True g1 it = (r2, g2)" by (cases "apply_item w True g1 it")
  have r2: "r2 = None" using ok x r1 i by (cases r2) (auto simp: apply_plan_append)
  have rest: "apply_plan w True ys g2 = (None, f')"
    using ok x r1 i r2 by (simp add: apply_plan_append)
  from apply_item_ok[OF act i[unfolded r2]] st rd
  have "g2 (dst it) = Some (File bytes (st_atime st) (st_mtime st))" by auto
  from apply_plan_keeps_file[OF rest this later]
  have d: "f' (dst it) = Some (File bytes (st_atime st) (st_mtime st))" .
  then show ?thesis
    using st sz dne same by (simp add: decide_def observe_def path_exists_def node_at_def)
qed

section \<open>The paths an apply changes\<close>

lemma apply_item_changes:
  assumes ap: "apply_item w pm f it = (r, f')" and ch: "f' x \<noteq> f x"
  shows "(action it = ADD \<or> action it = UPDATE) \<and>
         (x = dst it \<or> x = temp_path (dst it) \<or>
          (prefix x (parent (dst it)) \<and> f x = None \<and> f' x = Some Directory))"
proof -
  have act: "action it = ADD \<or> action it = UPDATE"
  proof (rule ccontr)
    assume "\<not> (action it = ADD \<or> action it = UPDATE)"
    then have "action it = SKIP \<or> action it = EXCLUDE" by (cases "action it") auto
    from apply_item_noop[OF this, of w pm f] ap ch show False by simp
  qed
  obtain r0 f0 where m: "mkdir_parents w f (parent (dst it)) = (r0, f0)"
    by (cases "mkdir_parents w f (parent (dst it))")
  have made: "prefix x (parent (dst it)) \<and> f x = None \<and> f0 x = Some Directory" if "f0 x \<noteq> f x"
    using that mkdir_parents_frame[OF m, of x] mkdir_parents_files[OF m, of x] by auto
  show ?thesis
  proof (cases r0)
    case (Some e)
    with apply_item_mkdir_fail[OF act m[unfolded Some], of pm] ap have "f' = f0" by simp
    with made ch act show ?thesis by simp
  next
    case None
    note u = apply_item_unfold[OF act m[unfolded None], of pm]
    obtain r1 f1 where c: "copy_steps w pm f0 (src it) (temp_path (dst it)) (dst it) = (r1, f1)"
      by (cases "copy_steps w pm f0 (src it) (temp_path (dst it)) (dst it)")
    show ?thesis
    proof (cases "x = dst it \<or> x = temp_path (dst it)")
      case True
      with act show ?thesis by auto
    next
      case False
      then have f1: "f1 x = f0 x"
        using copy_steps_frame[OF c _ _ temp_path_nonempty, of x] by simp
      have "f' x = f1 x"
      proof (cases r1)
        case None
        with u c ap show ?thesis by simp
      next
        case (Some e)
        obtain e' f2 where cl: "cleanup w f1 (temp_path (dst it)) e = (e', f2)"
          by (cases "cleanup w f1 (temp_path (dst it)) e")
        with u c Some ap have "f' = f2" by simp
        with cleanup_frame[OF cl, of x] False show ?thesis by simp
      qed
      with f1 ch have "f0 x \<noteq> f x" "f' x = f0 x" by simp_all
      with made act show ?thesis by simp
    qed
  qed
qed

lemma under_or_above:
  assumes "prefix x (base @ b)"
  shows "strict_prefix base x \<or> prefix x base"
proof -
  from assms have "prefix x base \<or> (\<exists>us. x = base @ us \<and> us \<noteq> [] \<and> prefix us b)"
    by (auto simp: prefix_append)
  then show ?thesis by (auto simp: strict_prefix_def)
qed

lemma apply_item_changes_root:
  assumes ap: "apply_item w pm f it = (r, f')" and ch: "f' x \<noteq> f x"
    and d: "action it = ADD \<or> action it = UPDATE \<longrightarrow> (\<exists>rel. rel \<noteq> [] \<and> dst it = base @ rel)"
  shows "strict_prefix base x \<or> (prefix x base \<and> f x = None \<and> f' x = Some Directory)"
proof -
  from apply_item_changes[OF ap ch] d obtain rel where rel: "rel \<noteq> []" "dst it = base @ rel"
    and x: "x = dst it \<or> x = temp_path (dst it) \<or>
          (prefix x (parent (dst it)) \<and> f x = None \<and> f' x = Some Directory)"
    by blast
  from rel(1) obtain b l where bl: "rel = b @ [l]" by (metis rev_exhaust)
  have p: "parent (dst it) = base @ b"
    by (simp add: rel(2) bl parent_def butlast_append)
  have t: "temp_path (dst it) = base @ b @ [l @ ''.part'']"
    by (simp add: rel(2) bl temp_path_def butlast_append)
  from x show ?thesis
  proof (elim disjE)
    assume "x = dst it"
    then show ?thesis using rel by (auto simp: strict_prefix_def)
  next
    assume "x = temp_path (dst it)"
    then show ?thesis using t by (auto simp: strict_prefix_def)
  next
    assume a: "prefix x (parent (dst it)) \<and> f x = None \<and> f' x = Some Directory"
    then have "strict_prefix base x \<or> prefix x base"
      using under_or_above[of x base b] p by simp
    with a show ?thesis by auto
  qed
qed

lemma apply_plan_changes:
  assumes "apply_plan w pm ys f = (r, f')" and "f' x \<noteq> f x"
    and "\<forall>y \<in> set ys. action y = ADD \<or> action y = UPDATE \<longrightarrow>
           (\<exists>rel. rel \<noteq> [] \<and> dst y = base @ rel)"
  shows "strict_prefix base x \<or> (prefix x base \<and> f x = None \<and> f' x = Some Directory)"
  using assms
proof (induction ys arbitrary: f)
  case Nil
  then show ?case by simp
next
  case (Cons y ys)
  obtain r1 g where y: "apply_item w pm f y = (r1, g)" by (cases "apply_item w pm f y")
  have dy: "action y = ADD \<or> action y = UPDATE \<longrightarrow> (\<exists>rel. rel \<noteq> [] \<and> dst y = base @ rel)"
    using Cons.prems(3) by simp
  have first: "strict_prefix base x \<or> (prefix x base \<and> f x = None \<and> g x = Some Directory)"
    if "g x \<noteq> f x"
    using apply_item_changes_root[OF y that dy] .
  show ?case
  proof (cases r1)
    case (Some e)
    with Cons.prems(1) y have "f' = g" by simp
    with first Cons.prems(2) show ?thesis by simp
  next
    case None
    with Cons.prems(1) y have rest: "apply_plan w pm ys g = (r, f')" by simp
    have later: "strict_prefix base x \<or> (prefix x base \<and> g x = None \<and> f' x = Some Directory)"
      if "f' x \<noteq> g x"
      using Cons.IH[OF rest that] Cons.prems(3) by simp
    show ?thesis
    proof (cases "g x = f x")
      case True
      with Cons.prems(2) have "f' x \<noteq> g x" by simp
      from later[OF this] True show ?thesis by simp
    next
      case False
      note gf = first[OF False]
      show ?thesis
      proof (cases "f' x = g x")
        case True
        with gf show ?thesis by simp
      next
        case False
        from later[OF False] gf show ?thesis by auto
      qed
    qed
  qed
qed

lemma plan_item_correspondence:
  assumes "plan P w t = Inr items" and "it \<in> set items"
  shows "\<exists>rel. src it = src_root P @ rel \<and> dst it = dst_root P @ rel \<and>
           (action it = ADD \<or> action it = UPDATE \<longrightarrow> rel \<noteq> [])"
proof -
  from assms obtain x where x: "x \<in> set (items_of (walk P w [] t))" "it = fst x"
    by (auto dest!: plan_items)
  then obtain r where "emitted_at P w r (Inr x)"
    using walk_item_origin[of x P w "[]" t] by auto
  then obtain rel where rel: "src it = src_root P @ rel" "dst it = dst_root P @ rel"
      "action it \<noteq> EXCLUDE \<longrightarrow> rel \<noteq> []"
    using emitted_correspondence x(2) by blast
  then show ?thesis by (intro exI[of _ rel]) auto
qed

section \<open>The worked examples, evaluated\<close>

lemma ex_lower [simp]: "str_lower ex_world = ascii_lower"
  by (simp add: ex_world_def)

lemma ex_planner_eq:
  "ex_planner =
     \<lparr>src_root = [''srv'', ''app''], dst_root = [''mirror''],
      root_excl = {''node_modules''}, rec_excl = {''__pycache__''},
      planner_patterns = [''*.o''],
      specific_excl = [''scripts'' @ [bslash] @ ''output'']\<rparr>"
  by (simp add: ex_planner_def ex_cfg_def SyncPlanner_def excludes_from_yaml_def
      ascii_lower_char_def fslash_def bslash_def)

lemma ex_plan: "plan ex_planner ex_world ex_tree = Inr ex_items"
  unfolding plan_def plan_calls_def ex_tree_def ex_planner_eq
  by (simp add: walk.simps visit_def is_under_specific_def rel_str_def path_str_def
      partition_names_def file_item_def is_file_excluded_def decide_def ex_world_def
      ex_items_def ascii_lower_char_def fslash_def bslash_def PlanItem_def Let_def)

lemma ex_patterns: "is_file_excluded ex_planner ex_world n \<longleftrightarrow> glob ''*.o'' (ascii_lower n)"
  by (simp add: is_file_excluded_def ex_planner_eq ex_world_def)

lemma ex_roots: "src_root ex_planner = [''srv'', ''app'']" "dst_root ex_planner = [''mirror'']"
  by (simp_all add: ex_planner_eq)

lemma ex_excl:
  "excl ex_cfg = excludes_from_yaml (str_lower ex_world)
     [''Node_Modules''] [''__pycache__''] [''*.O''] [''Scripts/Output'']"
  by (simp add: ex_cfg_def)

lemma ex_planner_lower: "ex_planner = SyncPlanner (str_lower ex_world) ex_cfg"
  by (simp add: ex_planner_def)

lemma ex_not_specific_root: "\<not> is_under_specific ex_planner ex_world []"
  by (simp add: is_under_specific_def ex_planner_eq rel_str_def path_str_def ascii_lower_char_def
      fslash_def bslash_def)

lemma ex_not_specific_build: "\<not> is_under_specific ex_planner ex_world [''build'']"
  by (simp add: is_under_specific_def ex_planner_eq rel_str_def path_str_def ascii_lower_char_def
      fslash_def bslash_def)

lemma ex_wf: "wf_tree ex_tree"
  by (simp add: ex_tree_def)

lemmas apply_eval =
  apply_item_def mkdir_parents_def node_at_def os_mkdir_def copy_steps_def copyfile_def
  preserve_times_def utime_def replace_def remove_def cleanup_def path_exists_def
  parent_def temp_path_def PlanItem_def

lemma keep_item_fields:
  "action keep_item = ADD" "dst keep_item = [''mirror'', ''scripts'', ''output2'', ''keep.txt'']"
  "src keep_item = [''srv'', ''app'', ''scripts'', ''output2'', ''keep.txt'']"
  by (simp_all add: keep_item_def PlanItem_def)

lemma full_disk_mkdir:
  "fst (mkdir_parents full_disk_world Map.empty (parent (dst keep_item))) = None"
  by (simp add: keep_item_fields apply_eval full_disk_world_def ex_world_def)

lemma full_disk_copy:
  "fst (copy_steps full_disk_world True
          (snd (mkdir_parents full_disk_world Map.empty (parent (dst keep_item))))
          (src keep_item) (temp_path (dst keep_item)) (dst keep_item)) =
   Some (OSError ''No space left on device'')"
  by (simp add: keep_item_fields apply_eval full_disk_world_def ex_world_def)

lemma full_disk_remove:
  "fst (remove full_disk_world
          (snd (copy_steps full_disk_world True
             (snd (mkdir_parents full_disk_world Map.empty (parent (dst keep_item))))
             (src keep_item) (temp_path (dst keep_item)) (dst keep_item)))
          (temp_path (dst keep_item))) = None"
  by (simp add: keep_item_fields apply_eval full_disk_world_def ex_world_def)

section \<open>The claims\<close>

subsection \<open>C1\<close>

text \<open>
  Claim C1, as the code has it. Let a directory name equal, once lowered, a lowered
  name of \<open>recursive_dirs\<close>. No item of the plan has its source strictly inside a
  directory of that name, at any depth. And wherever the traversal lists an entry of
  that name (in a directory it arrives at and that passes the path-prefix check), the
  plan has exactly one item for the entry's path: an \<open>EXCLUDE\<close> with reason
  \<open>recursive_dir\<close>, unless the entry is an immediate child of the root and its lowered
  name is a root-only exclude as well, in which case the one item carries the reason
  \<open>root_dir\<close>.
\<close>

theorem recursive_dir_pruned:
  assumes cfg: "excl cfg = excludes_from_yaml (str_lower w) rd rc fp sp"
      "P = SyncPlanner (str_lower w) cfg"
    and name: "name \<in> set rc" "str_lower w d = str_lower w name"
    and pl: "plan P w t = Inr items"
  shows "(\<forall>it \<in> set items. \<forall>q. \<not> strict_prefix (src_root P @ q @ [d]) (src it)) \<and>
         (\<forall>q fs cs. wf_tree t \<and> reach P w [] t q = Some (Dir fs cs) \<and>
              \<not> is_under_specific P w q \<and> d \<in> fst ` set cs \<longrightarrow>
            filter (\<lambda>it. src it = src_root P @ q @ [d]) items =
              [PlanItem EXCLUDE (src_root P @ q @ [d]) (dst_root P @ q @ [d])
                 (if q = [] \<and> str_lower w d \<in> root_excl P then ''root_dir''
                  else ''recursive_dir'')])"
proof -
  have rec: "str_lower w d \<in> rec_excl P"
    using planner_from_yaml(2)[OF cfg] name by auto
  have items: "items = map fst (items_of (walk P w [] t))" using plan_items[OF pl] by simp
  have inside: "\<forall>it \<in> set items. \<forall>q. \<not> strict_prefix (src_root P @ q @ [d]) (src it)"
  proof (intro ballI allI notI)
    fix it q
    assume it: "it \<in> set items" and sp: "strict_prefix (src_root P @ q @ [d]) (src it)"
    from it items obtain x where x: "x \<in> set (items_of (walk P w [] t))" "it = fst x" by auto
    have "open_from P w [] (q @ [d])"
      using no_item_below[of x P w t "q @ [d]"] x sp by simp
    then have "kept P w q d" by (simp add: open_from_append)
    with rec show False by (simp add: kept_def)
  qed
  have one: "\<forall>q fs cs. wf_tree t \<and> reach P w [] t q = Some (Dir fs cs) \<and>
              \<not> is_under_specific P w q \<and> d \<in> fst ` set cs \<longrightarrow>
            filter (\<lambda>it. src it = src_root P @ q @ [d]) items =
              [PlanItem EXCLUDE (src_root P @ q @ [d]) (dst_root P @ q @ [d])
                 (if q = [] \<and> str_lower w d \<in> root_excl P then ''root_dir''
                  else ''recursive_dir'')]"
  proof (intro allI impI)
    fix q fs cs
    assume a: "wf_tree t \<and> reach P w [] t q = Some (Dir fs cs) \<and> \<not> is_under_specific P w q \<and>
              d \<in> fst ` set cs"
    have nk: "\<not> kept P w q d" using rec by (simp add: kept_def)
    from a have a1: "wf_tree t" and a2: "reach P w [] t q = Some (Dir fs cs)"
      and a3: "\<not> is_under_specific P w q" and a4: "d \<in> fst ` set cs"
      by blast+
    have "filter (\<lambda>x. src (fst x) = src_root P @ q @ [d]) (items_of (walk P w [] t)) =
           [if q = [] \<and> str_lower w d \<in> root_excl P then root_item P d else rec_item P q d]"
      by (rule pruned_entry[OF a1 a2 a3 a4 nk])
    then show "filter (\<lambda>it. src it = src_root P @ q @ [d]) items =
              [PlanItem EXCLUDE (src_root P @ q @ [d]) (dst_root P @ q @ [d])
                 (if q = [] \<and> str_lower w d \<in> root_excl P then ''root_dir''
                  else ''recursive_dir'')]"
      unfolding items filter_items by (simp add: root_item_def rec_item_def)
  qed
  from inside one show ?thesis by (rule conjI)
qed

text \<open>
  In the example \<open>build/__PyCache__\<close> matches the rule \<open>__pycache__\<close>: one item, and
  nothing for \<open>c.pyc\<close> inside it.
\<close>

theorem recursive_dir_pruned_witness:
  "''__pycache__'' \<in> set [''__pycache__''] \<and>
   str_lower ex_world ''__PyCache__'' = str_lower ex_world ''__pycache__'' \<and>
   plan ex_planner ex_world ex_tree = Inr ex_items \<and>
   wf_tree ex_tree \<and>
   reach ex_planner ex_world [] ex_tree [''build''] =
     Some (Dir [''tmp.o'']
             [(''__PyCache__'', Dir [''c.pyc''] []), (''node_modules'', Dir [''n.js''] [])]) \<and>
   filter (\<lambda>it. src it = [''srv'', ''app'', ''build'', ''__PyCache__'']) ex_items =
     [PlanItem EXCLUDE [''srv'', ''app'', ''build'', ''__PyCache__'']
        [''mirror'', ''build'', ''__PyCache__''] ''recursive_dir''] \<and>
   list_all (\<lambda>it. \<not> strict_prefix [''srv'', ''app'', ''build'', ''__PyCache__''] (src it)) ex_items"
proof -
  let ?cs = "[(''__PyCache__'', Dir [''c.pyc''] []), (''node_modules'', Dir [''n.js''] [])]"
  have h3: "''__pycache__'' \<in> set [''__pycache__'']" by simp
  have h4: "str_lower ex_world ''__PyCache__'' = str_lower ex_world ''__pycache__''"
    by (simp add: ascii_lower_char_def)
  have k: "kept ex_planner ex_world [] ''build''"
    by (simp add: kept_def ex_planner_eq ascii_lower_char_def)
  have r: "reach ex_planner ex_world [] ex_tree [''build''] = Some (Dir [''tmp.o''] ?cs)"
    by (simp add: ex_tree_def ex_not_specific_root k)
  note T = recursive_dir_pruned[OF ex_excl ex_planner_lower h3 h4 ex_plan]
  from T have "\<forall>it \<in> set ex_items. \<forall>q. \<not> strict_prefix (src_root ex_planner @ q @ [''__PyCache__'']) (src it)"
    by (elim conjE)
  then have "\<forall>it \<in> set ex_items. \<not> strict_prefix (src_root ex_planner @ [''build''] @ [''__PyCache__'']) (src it)"
    by blast
  then have inside: "list_all (\<lambda>it. \<not> strict_prefix [''srv'', ''app'', ''build'', ''__PyCache__''] (src it)) ex_items"
    by (simp add: list_all_iff ex_roots)
  from T have "wf_tree ex_tree \<and>
      reach ex_planner ex_world [] ex_tree [''build''] = Some (Dir [''tmp.o''] ?cs) \<and>
      \<not> is_under_specific ex_planner ex_world [''build''] \<and> ''__PyCache__'' \<in> fst ` set ?cs \<longrightarrow>
      filter (\<lambda>it. src it = src_root ex_planner @ [''build''] @ [''__PyCache__'']) ex_items =
        [PlanItem EXCLUDE (src_root ex_planner @ [''build''] @ [''__PyCache__''])
           (dst_root ex_planner @ [''build''] @ [''__PyCache__''])
           (if [''build''] = [] \<and> str_lower ex_world ''__PyCache__'' \<in> root_excl ex_planner
            then ''root_dir'' else ''recursive_dir'')]"
    by blast
  then have one: "filter (\<lambda>it. src it = [''srv'', ''app'', ''build'', ''__PyCache__'']) ex_items =
     [PlanItem EXCLUDE [''srv'', ''app'', ''build'', ''__PyCache__'']
        [''mirror'', ''build'', ''__PyCache__''] ''recursive_dir'']"
    using ex_wf r ex_not_specific_build by (simp add: ex_roots)
  from h3 h4 ex_plan ex_wf r one inside show ?thesis by (intro conjI)
qed

text \<open>
  The claim as it was stated asks for the reason \<open>recursive_dir\<close> at every occurrence.
  With \<open>build\<close> in both lists, the root's \<open>build\<close> is removed by the root-only loop
  before the recursive loop runs: the plan has the one item, with reason \<open>root_dir\<close>,
  and no item with reason \<open>recursive_dir\<close>.
\<close>

theorem recursive_dir_counterexample:
  "''build'' \<in> recursive_dirs (excl overlap_cfg) \<and>
   plan (SyncPlanner ascii_lower overlap_cfg) ex_world overlap_tree =
     Inr [PlanItem EXCLUDE [''srv'', ''app'', ''build''] [''mirror'', ''build''] ''root_dir'']"
  by (simp add: overlap_cfg_def overlap_tree_def excludes_from_yaml_def SyncPlanner_def
      plan_def plan_calls_def walk.simps visit_def is_under_specific_def partition_names_def
      ex_world_def PlanItem_def ascii_lower_char_def)

subsection \<open>C2\<close>

text \<open>
  Claim C2 at an input the code gets wrong. The file \<open>a.txt\<close> matches no pattern and
  its source can be read; the destination directory cannot be searched, so the metadata
  of the destination cannot be read, for which the claim has \<open>UPDATE\<close> with a reason
  that starts \<open>dst unreadable:\<close>. The code asks \<open>dst.exists()\<close> first, outside any
  \<open>try\<close>: the \<open>PermissionError\<close> it raises leaves \<open>_decide\<close> and \<open>plan\<close>, and there
  is no item and no plan.
\<close>

theorem exists_error_leaves_plan:
  "\<not> is_file_excluded ex_planner denied_world ''a.txt'' \<and>
   src_stat denied_world [''srv'', ''app'', ''a.txt''] =
     Inr \<lparr>st_size = 5, st_atime = 10, st_mtime = 100\<rparr> \<and>
   dst_stat denied_world [''mirror'', ''a.txt''] = Inl (PermissionError ''Permission denied'') \<and>
   file_item ex_planner denied_world [] ''a.txt'' =
     Inl (PermissionError ''Permission denied'',
          [StatSrc [''srv'', ''app'', ''a.txt''], DstExists [''mirror'', ''a.txt'']]) \<and>
   plan ex_planner denied_world single_tree = Inl (Raised (PermissionError ''Permission denied''))"
  unfolding plan_def plan_calls_def single_tree_def ex_planner_eq
  by (simp add: walk.simps visit_def is_under_specific_def rel_str_def path_str_def
      partition_names_def file_item_def is_file_excluded_def decide_def denied_world_def
      ex_world_def ascii_lower_char_def fslash_def bslash_def Let_def)

subsection \<open>C3\<close>

text \<open>
  Claim C3, as the code has it. Let every configured prefix spell, with either
  separator and in any case, a non-empty list of segments, and let the lowering of
  strings go segment by segment (as \<open>str.lower\<close> does). For a directory path of proper
  segments the path-prefix check holds exactly when the lowered segments of some
  configured prefix are the lowered path or an initial part of it, segment by segment:
  \<open>scripts\output2\<close> does not match the prefix \<open>scripts\output\<close>, and
  \<open>scripts\output\logs\<close> does. No item of the plan lies strictly inside a directory
  that matches. A matching directory the traversal arrives at and \<open>os.walk\<close> walks has
  exactly one item, an \<open>EXCLUDE\<close> with reason \<open>specific_path\<close> for the directory
  itself; a directory the traversal arrives at and \<open>os.walk\<close> does not walk (a link to
  a directory, a directory that cannot be listed) has no item, matching or not.
\<close>

theorem specific_path_boundary:
  assumes cfg: "excl cfg = excludes_from_yaml (str_lower w) rd rc fp sp"
      "P = SyncPlanner (str_lower w) cfg"
    and lo: "lowers_by_segment (str_lower w)"
    and sp: "map (\<lambda>s. str_lower w (replace_slash s)) sp = map (rel_str (str_lower w)) qs"
    and qs: "\<forall>q \<in> set qs. q \<noteq> [] \<and> q \<noteq> [''.''] \<and> (\<forall>n \<in> set q. sep_free n)"
    and pl: "plan P w t = Inr items"
  shows "(\<forall>p. (\<forall>n \<in> set p. sep_free n) \<longrightarrow>
            (is_under_specific P w p \<longleftrightarrow>
             (\<exists>q \<in> set qs. prefix (map (str_lower w) q) (map (str_lower w) p)))) \<and>
         (\<forall>p. is_under_specific P w p \<longrightarrow>
            (\<forall>it \<in> set items. \<not> strict_prefix (src_root P @ p) (src it))) \<and>
         (\<forall>p fs cs. wf_tree t \<and> reach P w [] t p = Some (Dir fs cs) \<and> is_under_specific P w p \<longrightarrow>
            filter (\<lambda>it. src it = src_root P @ p) items =
              [PlanItem EXCLUDE (src_root P @ p) (dst_root P @ p) ''specific_path'']) \<and>
         (\<forall>p. wf_tree t \<and> reach P w [] t p = Some Unwalked \<longrightarrow>
            filter (\<lambda>it. src it = src_root P @ p) items = [])"
proof -
  have spec: "specific_excl P = map (rel_str (str_lower w)) qs"
    using planner_from_yaml(4)[OF cfg] sp by simp
  have items: "items = map fst (items_of (walk P w [] t))" using plan_items[OF pl] by simp
  have segs: "\<forall>p. (\<forall>n \<in> set p. sep_free n) \<longrightarrow>
            (is_under_specific P w p \<longleftrightarrow>
             (\<exists>q \<in> set qs. prefix (map (str_lower w) q) (map (str_lower w) p)))"
    using is_under_specific_segments[OF lo spec qs] by blast
  have inside: "\<forall>p. is_under_specific P w p \<longrightarrow>
            (\<forall>it \<in> set items. \<not> strict_prefix (src_root P @ p) (src it))"
  proof (intro allI impI ballI notI)
    fix p it
    assume us: "is_under_specific P w p" and it: "it \<in> set items"
      and sp: "strict_prefix (src_root P @ p) (src it)"
    from it items obtain x where x: "x \<in> set (items_of (walk P w [] t))" "it = fst x" by auto
    have "\<not> is_under_specific P w p"
      using no_item_below[of x P w t p] x sp by simp
    with us show False by simp
  qed
  have one: "\<forall>p fs cs. wf_tree t \<and> reach P w [] t p = Some (Dir fs cs) \<and>
              is_under_specific P w p \<longrightarrow>
            filter (\<lambda>it. src it = src_root P @ p) items =
              [PlanItem EXCLUDE (src_root P @ p) (dst_root P @ p) ''specific_path'']"
  proof (intro allI impI)
    fix p fs cs
    assume a: "wf_tree t \<and> reach P w [] t p = Some (Dir fs cs) \<and> is_under_specific P w p"
    then have a1: "wf_tree t" and a2: "reach P w [] t p = Some (Dir fs cs)"
      and a3: "is_under_specific P w p" by blast+
    show "filter (\<lambda>it. src it = src_root P @ p) items =
              [PlanItem EXCLUDE (src_root P @ p) (dst_root P @ p) ''specific_path'']"
      unfolding items filter_items specific_entry[OF a1 a2 a3]
      by (simp add: specific_item_def)
  qed
  have none: "\<forall>p. wf_tree t \<and> reach P w [] t p = Some Unwalked \<longrightarrow>
            filter (\<lambda>it. src it = src_root P @ p) items = []"
  proof (intro allI impI)
    fix p
    assume a: "wf_tree t \<and> reach P w [] t p = Some Unwalked"
    then have a1: "wf_tree t" and a2: "reach P w [] t p = Some Unwalked" by blast+
    show "filter (\<lambda>it. src it = src_root P @ p) items = []"
      unfolding items filter_items unwalked_entry[OF a1 a2] by simp
  qed
  from segs inside one none show ?thesis by (intro conjI)
qed

text \<open>
  In the example the prefix is configured as \<open>Scripts/Output\<close>: \<open>scripts/output2\<close> is
  walked, \<open>scripts/output\<close> has its one item and \<open>log.txt\<close> and \<open>logs\<close> inside it have
  none.
\<close>

theorem specific_path_boundary_witness:
  "lowers_by_segment (str_lower ex_world) \<and>
   map (\<lambda>s. str_lower ex_world (replace_slash s)) [''Scripts/Output''] =
     map (rel_str (str_lower ex_world)) [[''scripts'', ''output'']] \<and>
   plan ex_planner ex_world ex_tree = Inr ex_items \<and>
   wf_tree ex_tree \<and>
   reach ex_planner ex_world [] ex_tree [''scripts'', ''output''] =
     Some (Dir [''log.txt''] [(''logs'', Dir [''l.txt''] [])]) \<and>
   \<not> is_under_specific ex_planner ex_world [''scripts'', ''output2''] \<and>
   is_under_specific ex_planner ex_world [''scripts'', ''output'', ''logs''] \<and>
   is_under_specific ex_planner ex_world [''scripts'', ''output''] \<and>
   filter (\<lambda>it. src it = [''srv'', ''app'', ''scripts'', ''output'']) ex_items =
     [PlanItem EXCLUDE [''srv'', ''app'', ''scripts'', ''output'']
        [''mirror'', ''scripts'', ''output''] ''specific_path''] \<and>
   list_all (\<lambda>it. \<not> strict_prefix [''srv'', ''app'', ''scripts'', ''output''] (src it)) ex_items"
proof -
  have h2: "lowers_by_segment (str_lower ex_world)"
    by (simp add: ascii_lowers_by_segment)
  have h3: "map (\<lambda>s. str_lower ex_world (replace_slash s)) [''Scripts/Output''] =
            map (rel_str (str_lower ex_world)) [[''scripts'', ''output'']]"
    by (simp add: rel_str_def path_str_def ascii_lower_char_def fslash_def bslash_def)
  have h4: "\<forall>q \<in> set [[''scripts'', ''output'']]. q \<noteq> [] \<and> q \<noteq> [''.''] \<and> (\<forall>n \<in> set q. sep_free n)"
    by (simp add: sep_free_def fslash_def bslash_def)
  note T = specific_path_boundary[OF ex_excl ex_planner_lower h2 h3 h4 ex_plan]
  from T have segs: "\<forall>p. (\<forall>n \<in> set p. sep_free n) \<longrightarrow>
      (is_under_specific ex_planner ex_world p \<longleftrightarrow>
        (\<exists>q \<in> set [[''scripts'', ''output'']].
           prefix (map (str_lower ex_world) q) (map (str_lower ex_world) p)))"
    by (elim conjE)
  have n2: "\<not> is_under_specific ex_planner ex_world [''scripts'', ''output2'']"
  proof -
    have "\<forall>n \<in> set [''scripts'', ''output2'']. sep_free n"
      by (simp add: sep_free_def fslash_def bslash_def)
    from segs[THEN spec, THEN mp, OF this] show ?thesis
      by (simp add: ascii_lower_char_def)
  qed
  have y3: "is_under_specific ex_planner ex_world [''scripts'', ''output'', ''logs'']"
  proof -
    have "\<forall>n \<in> set [''scripts'', ''output'', ''logs'']. sep_free n"
      by (simp add: sep_free_def fslash_def bslash_def)
    from segs[THEN spec, THEN mp, OF this] show ?thesis
      by (simp add: ascii_lower_char_def)
  qed
  have y2: "is_under_specific ex_planner ex_world [''scripts'', ''output'']"
  proof -
    have "\<forall>n \<in> set [''scripts'', ''output'']. sep_free n"
      by (simp add: sep_free_def fslash_def bslash_def)
    from segs[THEN spec, THEN mp, OF this] show ?thesis
      by (simp add: ascii_lower_char_def)
  qed
  have n1: "\<not> is_under_specific ex_planner ex_world [''scripts'']"
  proof -
    have "\<forall>n \<in> set [''scripts'']. sep_free n"
      by (simp add: sep_free_def fslash_def bslash_def)
    from segs[THEN spec, THEN mp, OF this] show ?thesis
      by (simp add: ascii_lower_char_def)
  qed
  have k1: "kept ex_planner ex_world [] ''scripts''"
    and k2: "kept ex_planner ex_world [''scripts''] ''output''"
    by (simp_all add: kept_def ex_planner_eq ascii_lower_char_def)
  have r: "reach ex_planner ex_world [] ex_tree [''scripts'', ''output''] =
     Some (Dir [''log.txt''] [(''logs'', Dir [''l.txt''] [])])"
    by (simp add: ex_tree_def ex_not_specific_root n1 k1 k2)
  from T have "\<forall>p. is_under_specific ex_planner ex_world p \<longrightarrow>
      (\<forall>it \<in> set ex_items. \<not> strict_prefix (src_root ex_planner @ p) (src it))"
    by (elim conjE)
  then have "\<forall>it \<in> set ex_items. \<not> strict_prefix (src_root ex_planner @ [''scripts'', ''output'']) (src it)"
    using y2 by blast
  then have inside: "list_all (\<lambda>it. \<not> strict_prefix [''srv'', ''app'', ''scripts'', ''output''] (src it)) ex_items"
    by (simp add: list_all_iff ex_roots)
  from T have "wf_tree ex_tree \<and>
      reach ex_planner ex_world [] ex_tree [''scripts'', ''output''] =
        Some (Dir [''log.txt''] [(''logs'', Dir [''l.txt''] [])]) \<and>
      is_under_specific ex_planner ex_world [''scripts'', ''output''] \<longrightarrow>
      filter (\<lambda>it. src it = src_root ex_planner @ [''scripts'', ''output'']) ex_items =
        [PlanItem EXCLUDE (src_root ex_planner @ [''scripts'', ''output''])
           (dst_root ex_planner @ [''scripts'', ''output'']) ''specific_path'']"
    by blast
  then have one: "filter (\<lambda>it. src it = [''srv'', ''app'', ''scripts'', ''output'']) ex_items =
     [PlanItem EXCLUDE [''srv'', ''app'', ''scripts'', ''output'']
        [''mirror'', ''scripts'', ''output''] ''specific_path'']"
    using ex_wf r y2 by (simp add: ex_roots)
  from h2 h3 ex_plan ex_wf r n2 y3 y2 one inside show ?thesis by (intro conjI)
qed

text \<open>
  The claim as it was stated has one item for the matched directory itself. When
  \<open>scripts/output\<close> is a symbolic link to a directory, \<open>os.walk\<close> lists it in
  \<open>scripts\<close> and never yields it, so the check that would make its item is not run:
  the path matches and the plan is empty.
\<close>

theorem unwalked_match_counterexample:
  "is_under_specific ex_planner ex_world [''scripts'', ''output''] \<and>
   reach ex_planner ex_world [] linked_tree [''scripts'', ''output''] = Some Unwalked \<and>
   plan ex_planner ex_world linked_tree = Inr []"
proof -
  have y2: "is_under_specific ex_planner ex_world [''scripts'', ''output'']"
    by (simp add: is_under_specific_def ex_planner_eq rel_str_def path_str_def
        ascii_lower_char_def fslash_def bslash_def)
  have n1: "\<not> is_under_specific ex_planner ex_world [''scripts'']"
    by (simp add: is_under_specific_def ex_planner_eq rel_str_def path_str_def
        ascii_lower_char_def fslash_def bslash_def)
  have k1: "kept ex_planner ex_world [] ''scripts''"
    and k2: "kept ex_planner ex_world [''scripts''] ''output''"
    by (simp_all add: kept_def ex_planner_eq ascii_lower_char_def)
  have r: "reach ex_planner ex_world [] linked_tree [''scripts'', ''output''] = Some Unwalked"
    by (simp add: linked_tree_def ex_not_specific_root n1 k1 k2)
  have p: "plan ex_planner ex_world linked_tree = Inr []"
    unfolding plan_def plan_calls_def linked_tree_def ex_planner_eq
    by (simp add: walk.simps visit_def is_under_specific_def rel_str_def path_str_def
        partition_names_def ex_world_def ascii_lower_char_def fslash_def bslash_def)
  from y2 r p show ?thesis by (intro conjI)
qed

subsection \<open>C4\<close>

text \<open>
  Claim C4, as the code has it. \<open>SKIP\<close> and \<open>EXCLUDE\<close> items change nothing. For an
  \<open>ADD\<close> or \<open>UPDATE\<close> item the parent directories of the destination are created
  first, and an error there leaves the loop with nothing copied. Then the source bytes
  are written to the sibling \<open>name.part\<close>, the source's time stamps are put on it when
  asked for, and it is renamed onto the destination: the copy and the time stamps touch
  no path but the temporary one, and the rename puts the whole file under the
  destination name in one step. After a turn without error the destination holds the
  source bytes (with the source's times when they are preserved), the temporary path
  is free, and nothing else changed but directories that were created. After an error
  in the copy, the time stamps or the rename, the loop is left with an error, the
  destination name holds what it held before, and every path other than the temporary
  one is as the directory creation left it; when the removal of the temporary file goes
  through (or there is none to remove), the error is the one of the failed step and the
  temporary path is free. An error ends the run: the items after the failing one are
  not applied, and what the items before it did stays.
\<close>

theorem apply_item_atomic:
  "(action it = SKIP \<or> action it = EXCLUDE \<longrightarrow> apply_item w pm f it = (None, f)) \<and>
   (\<forall>e f0. (action it = ADD \<or> action it = UPDATE) \<and>
        mkdir_parents w f (parent (dst it)) = (Some e, f0) \<longrightarrow>
      apply_item w pm f it = (Some e, f0) \<and>
      (\<forall>x. f0 x = f x \<or> f x = None \<and> f0 x = Some Directory)) \<and>
   (\<forall>g s t x. x \<noteq> t \<longrightarrow>
      snd (copyfile w g s t) x = g x \<and> snd (preserve_times w pm g s t) x = g x) \<and>
   (\<forall>g t d e g'. replace w g t d = (Some e, g') \<longrightarrow> g' = g) \<and>
   (\<forall>g t d g'. t \<noteq> [] \<and> t \<noteq> d \<and> replace w g t d = (None, g') \<longrightarrow>
      g' d = g t \<and> g' t = None \<and> (\<exists>c a m. g t = Some (File c a m))) \<and>
   (\<forall>f'. (action it = ADD \<or> action it = UPDATE) \<and> apply_item w pm f it = (None, f') \<longrightarrow>
      node_at f' (parent (dst it)) = Some Directory \<and> f' (temp_path (dst it)) = None \<and>
      (\<exists>bytes a m. read_src w (src it) = Inr bytes \<and> f' (dst it) = Some (File bytes a m) \<and>
          (if pm then \<exists>st. src_stat w (src it) = Inr st \<and> a = st_atime st \<and> m = st_mtime st
           else a = now w \<and> m = now w)) \<and>
      (\<forall>x. x \<noteq> dst it \<and> x \<noteq> temp_path (dst it) \<longrightarrow>
          f' x = f x \<or> f x = None \<and> f' x = Some Directory)) \<and>
   (\<forall>f0 e f1. (action it = ADD \<or> action it = UPDATE) \<and> dst it \<noteq> [] \<and>
        mkdir_parents w f (parent (dst it)) = (None, f0) \<and>
        copy_steps w pm f0 (src it) (temp_path (dst it)) (dst it) = (Some e, f1) \<longrightarrow>
      fst (apply_item w pm f it) \<noteq> None \<and>
      snd (apply_item w pm f it) (dst it) = f (dst it) \<and>
      (\<forall>x. x \<noteq> temp_path (dst it) \<longrightarrow> snd (apply_item w pm f it) x = f0 x) \<and>
      ((path_exists f1 (temp_path (dst it)) \<longrightarrow>
          fst (remove w f1 (temp_path (dst it))) = None) \<longrightarrow>
         fst (apply_item w pm f it) = Some e \<and>
         snd (apply_item w pm f it) (temp_path (dst it)) = None)) \<and>
   (\<forall>xs ys g e g'. apply_plan w pm xs f = (None, g) \<and> apply_item w pm g it = (Some e, g') \<longrightarrow>
      apply_plan w pm (xs @ it # ys) f = (Some e, g'))"
proof -
  have c1: "action it = SKIP \<or> action it = EXCLUDE \<longrightarrow> apply_item w pm f it = (None, f)"
    using apply_item_noop by blast
  have c2: "\<forall>e f0. (action it = ADD \<or> action it = UPDATE) \<and>
        mkdir_parents w f (parent (dst it)) = (Some e, f0) \<longrightarrow>
      apply_item w pm f it = (Some e, f0) \<and>
      (\<forall>x. f0 x = f x \<or> f x = None \<and> f0 x = Some Directory)"
    using apply_item_mkdir_fail mkdir_parents_files by blast
  have c3: "\<forall>g s t x. x \<noteq> t \<longrightarrow>
      snd (copyfile w g s t) x = g x \<and> snd (preserve_times w pm g s t) x = g x"
    using copyfile_frame preserve_times_frame by (metis prod.collapse)
  have c4: "\<forall>g t d e g'. replace w g t d = (Some e, g') \<longrightarrow> g' = g"
    using replace_fail by blast
  have c5: "\<forall>g t d g'. t \<noteq> [] \<and> t \<noteq> d \<and> replace w g t d = (None, g') \<longrightarrow>
      g' d = g t \<and> g' t = None \<and> (\<exists>c a m. g t = Some (File c a m))"
  proof (intro allI impI)
    fix g t d g'
    assume a: "t \<noteq> [] \<and> t \<noteq> d \<and> replace w g t d = (None, g')"
    then obtain c a' m where "g t = Some (File c a' m)" "g' = (g(t := None))(d \<mapsto> File c a' m)"
      using replace_ok[of w g t d g'] by blast
    then show "g' d = g t \<and> g' t = None \<and> (\<exists>c a m. g t = Some (File c a m))"
      using a by simp
  qed
  have c6: "\<forall>f'. (action it = ADD \<or> action it = UPDATE) \<and> apply_item w pm f it = (None, f') \<longrightarrow>
      node_at f' (parent (dst it)) = Some Directory \<and> f' (temp_path (dst it)) = None \<and>
      (\<exists>bytes a m. read_src w (src it) = Inr bytes \<and> f' (dst it) = Some (File bytes a m) \<and>
          (if pm then \<exists>st. src_stat w (src it) = Inr st \<and> a = st_atime st \<and> m = st_mtime st
           else a = now w \<and> m = now w)) \<and>
      (\<forall>x. x \<noteq> dst it \<and> x \<noteq> temp_path (dst it) \<longrightarrow>
          f' x = f x \<or> f x = None \<and> f' x = Some Directory)"
    using apply_item_ok[of it w pm f] by blast
  have c7: "\<forall>f0 e f1. (action it = ADD \<or> action it = UPDATE) \<and> dst it \<noteq> [] \<and>
        mkdir_parents w f (parent (dst it)) = (None, f0) \<and>
        copy_steps w pm f0 (src it) (temp_path (dst it)) (dst it) = (Some e, f1) \<longrightarrow>
      fst (apply_item w pm f it) \<noteq> None \<and>
      snd (apply_item w pm f it) (dst it) = f (dst it) \<and>
      (\<forall>x. x \<noteq> temp_path (dst it) \<longrightarrow> snd (apply_item w pm f it) x = f0 x) \<and>
      ((path_exists f1 (temp_path (dst it)) \<longrightarrow>
          fst (remove w f1 (temp_path (dst it))) = None) \<longrightarrow>
         fst (apply_item w pm f it) = Some e \<and>
         snd (apply_item w pm f it) (temp_path (dst it)) = None)"
  proof (intro allI impI)
    fix f0 e f1
    assume a: "(action it = ADD \<or> action it = UPDATE) \<and> dst it \<noteq> [] \<and>
        mkdir_parents w f (parent (dst it)) = (None, f0) \<and>
        copy_steps w pm f0 (src it) (temp_path (dst it)) (dst it) = (Some e, f1)"
    then have a1: "action it = ADD \<or> action it = UPDATE" and a2: "dst it \<noteq> []"
      and a3: "mkdir_parents w f (parent (dst it)) = (None, f0)"
      and a4: "copy_steps w pm f0 (src it) (temp_path (dst it)) (dst it) = (Some e, f1)"
      by blast+
    show "fst (apply_item w pm f it) \<noteq> None \<and>
      snd (apply_item w pm f it) (dst it) = f (dst it) \<and>
      (\<forall>x. x \<noteq> temp_path (dst it) \<longrightarrow> snd (apply_item w pm f it) x = f0 x) \<and>
      ((path_exists f1 (temp_path (dst it)) \<longrightarrow>
          fst (remove w f1 (temp_path (dst it))) = None) \<longrightarrow>
         fst (apply_item w pm f it) = Some e \<and>
         snd (apply_item w pm f it) (temp_path (dst it)) = None)"
      by (rule apply_item_fail[OF a1 a2 a3 a4])
  qed
  have c8: "\<forall>xs ys g e g'. apply_plan w pm xs f = (None, g) \<and> apply_item w pm g it = (Some e, g') \<longrightarrow>
      apply_plan w pm (xs @ it # ys) f = (Some e, g')"
    using apply_plan_append_fail by blast
  from c1 c2 c3 c4 c5 c6 c7 c8 show ?thesis by (intro conjI)
qed

text \<open>
  The disk fills up while \<open>keep.txt\<close> is being copied into an empty destination: the
  error is the one the caller sees, the partly written \<open>keep.txt.part\<close> is gone and
  there is no \<open>keep.txt\<close>.
\<close>

theorem apply_item_atomic_witness:
  "action keep_item = ADD \<and> dst keep_item \<noteq> [] \<and>
   fst (mkdir_parents full_disk_world Map.empty (parent (dst keep_item))) = None \<and>
   fst (copy_steps full_disk_world True
          (snd (mkdir_parents full_disk_world Map.empty (parent (dst keep_item))))
          (src keep_item) (temp_path (dst keep_item)) (dst keep_item)) =
     Some (OSError ''No space left on device'') \<and>
   fst (apply_item full_disk_world True Map.empty keep_item) =
     Some (OSError ''No space left on device'') \<and>
   snd (apply_item full_disk_world True Map.empty keep_item) (temp_path (dst keep_item)) = None \<and>
   snd (apply_item full_disk_world True Map.empty keep_item) (dst keep_item) = None"
proof -
  let ?w = full_disk_world
  let ?f0 = "snd (mkdir_parents ?w Map.empty (parent (dst keep_item)))"
  let ?c = "copy_steps ?w True ?f0 (src keep_item) (temp_path (dst keep_item)) (dst keep_item)"
  have act: "action keep_item = ADD \<or> action keep_item = UPDATE" and dne: "dst keep_item \<noteq> []"
    by (simp_all add: keep_item_fields)
  have m: "mkdir_parents ?w Map.empty (parent (dst keep_item)) = (None, ?f0)"
    using full_disk_mkdir by (simp add: prod_eq_iff)
  have c: "?c = (Some (OSError ''No space left on device''), snd ?c)"
    using full_disk_copy by (simp add: prod_eq_iff)
  have rm: "path_exists (snd ?c) (temp_path (dst keep_item)) \<longrightarrow>
        fst (remove ?w (snd ?c) (temp_path (dst keep_item))) = None"
    using full_disk_remove by simp
  note T = apply_item_atomic[of keep_item ?w True Map.empty]
  from T have "\<forall>f0 e f1. (action keep_item = ADD \<or> action keep_item = UPDATE) \<and>
        dst keep_item \<noteq> [] \<and>
        mkdir_parents ?w Map.empty (parent (dst keep_item)) = (None, f0) \<and>
        copy_steps ?w True f0 (src keep_item) (temp_path (dst keep_item)) (dst keep_item) = (Some e, f1) \<longrightarrow>
      fst (apply_item ?w True Map.empty keep_item) \<noteq> None \<and>
      snd (apply_item ?w True Map.empty keep_item) (dst keep_item) = Map.empty (dst keep_item) \<and>
      (\<forall>x. x \<noteq> temp_path (dst keep_item) \<longrightarrow> snd (apply_item ?w True Map.empty keep_item) x = f0 x) \<and>
      ((path_exists f1 (temp_path (dst keep_item)) \<longrightarrow>
          fst (remove ?w f1 (temp_path (dst keep_item))) = None) \<longrightarrow>
         fst (apply_item ?w True Map.empty keep_item) = Some e \<and>
         snd (apply_item ?w True Map.empty keep_item) (temp_path (dst keep_item)) = None)"
    by (elim conjE)
  from this[rule_format, OF conjI[OF act conjI[OF dne conjI[OF m c]]]] rm
  have "snd (apply_item ?w True Map.empty keep_item) (dst keep_item) = None \<and>
        fst (apply_item ?w True Map.empty keep_item) = Some (OSError ''No space left on device'') \<and>
        snd (apply_item ?w True Map.empty keep_item) (temp_path (dst keep_item)) = None"
    by simp
  with act dne full_disk_mkdir full_disk_copy show ?thesis
    by (simp add: keep_item_fields(1))
qed

text \<open>
  The claim as it was stated has the temporary file removed and the first error raised
  again after any failure. When the removal fails as well, its error is the one being
  handled in the \<open>finally\<close> block and the one that leaves the loop, and the partly
  written temporary file stays: here the disk is full and the temporary file is locked.
\<close>

theorem cleanup_failure_counterexample:
  "fst (copy_steps locked_world True
          (snd (mkdir_parents locked_world Map.empty (parent (dst keep_item))))
          (src keep_item) (temp_path (dst keep_item)) (dst keep_item)) =
     Some (OSError ''No space left on device'') \<and>
   fst (apply_item locked_world True Map.empty keep_item) =
     Some (PermissionError ''Access is denied'') \<and>
   snd (apply_item locked_world True Map.empty keep_item) (temp_path (dst keep_item)) =
     Some (File ''ab'' 1000 1000)"
  by (simp add: keep_item_fields apply_eval locked_world_def full_disk_world_def ex_world_def)

subsection \<open>C5\<close>

text \<open>
  Claim C5. Let a directory name equal, once lowered, a lowered name of \<open>root_dirs\<close>.
  As an immediate child of the source root it gets exactly one item, an \<open>EXCLUDE\<close> with
  reason \<open>root_dir\<close>, and no item of the plan lies strictly inside it. Every item with
  reason \<open>root_dir\<close> is an \<open>EXCLUDE\<close> for an immediate child of the root. Below the
  root the rule has no say: the traversal of any directory other than the root is the
  same whatever the root-only set is, and a subdirectory of that name, deeper in the
  tree and not excluded by the recursive rule, has all the items of its own traversal in
  the plan.
\<close>

theorem root_dir_scoping:
  assumes cfg: "excl cfg = excludes_from_yaml (str_lower w) rd rc fp sp"
      "P = SyncPlanner (str_lower w) cfg"
    and name: "name \<in> set rd" "str_lower w d = str_lower w name"
    and pl: "plan P w t = Inr items"
  shows "(\<forall>fs cs. wf_tree t \<and> t = Dir fs cs \<and> \<not> is_under_specific P w [] \<and> d \<in> fst ` set cs \<longrightarrow>
            filter (\<lambda>it. src it = src_root P @ [d]) items =
              [PlanItem EXCLUDE (src_root P @ [d]) (dst_root P @ [d]) ''root_dir'']) \<and>
         (\<forall>it \<in> set items. \<not> strict_prefix (src_root P @ [d]) (src it)) \<and>
         (\<forall>it \<in> set items. reason it = ''root_dir'' \<longrightarrow>
            action it = EXCLUDE \<and>
            (\<exists>n. str_lower w n \<in> root_excl P \<and> src it = src_root P @ [n])) \<and>
         (\<forall>rel t' X. rel \<noteq> [] \<longrightarrow> walk P w rel t' = walk (P\<lparr>root_excl := X\<rparr>) w rel t') \<and>
         (\<forall>q fs cs u. q \<noteq> [] \<and> reach P w [] t q = Some (Dir fs cs) \<and> \<not> is_under_specific P w q \<and>
              map_of cs d = Some u \<and> str_lower w d \<notin> rec_excl P \<longrightarrow>
            set (map fst (items_of (walk P w (q @ [d]) u))) \<subseteq> set items)"
proof -
  have root: "str_lower w d \<in> root_excl P"
    using planner_from_yaml(1)[OF cfg] name by auto
  have items: "items = map fst (items_of (walk P w [] t))" using plan_items[OF pl] by simp
  have one: "\<forall>fs cs. wf_tree t \<and> t = Dir fs cs \<and> \<not> is_under_specific P w [] \<and> d \<in> fst ` set cs \<longrightarrow>
            filter (\<lambda>it. src it = src_root P @ [d]) items =
              [PlanItem EXCLUDE (src_root P @ [d]) (dst_root P @ [d]) ''root_dir'']"
  proof (intro allI impI)
    fix fs cs
    assume a: "wf_tree t \<and> t = Dir fs cs \<and> \<not> is_under_specific P w [] \<and> d \<in> fst ` set cs"
    have nk: "\<not> kept P w [] d" using root by (simp add: kept_def)
    have r0: "reach P w [] t [] = Some (Dir fs cs)" using a by simp
    from a have a1: "wf_tree t" and a3: "\<not> is_under_specific P w []" and a4: "d \<in> fst ` set cs"
      by blast+
    have "filter (\<lambda>x. src (fst x) = src_root P @ [d]) (items_of (walk P w [] t)) = [root_item P d]"
      using pruned_entry[OF a1 r0 a3 a4 nk] root by simp
    then show "filter (\<lambda>it. src it = src_root P @ [d]) items =
              [PlanItem EXCLUDE (src_root P @ [d]) (dst_root P @ [d]) ''root_dir'']"
      unfolding items filter_items using root by (simp add: root_item_def)
  qed
  have inside: "\<forall>it \<in> set items. \<not> strict_prefix (src_root P @ [d]) (src it)"
  proof (intro ballI notI)
    fix it
    assume it: "it \<in> set items" and sp: "strict_prefix (src_root P @ [d]) (src it)"
    from it items obtain x where x: "x \<in> set (items_of (walk P w [] t))" "it = fst x" by auto
    have "open_from P w [] [d]"
      using no_item_below[of x P w t "[d]"] x sp by simp
    with root show False by (simp add: kept_def)
  qed
  have only: "\<forall>it \<in> set items. reason it = ''root_dir'' \<longrightarrow>
            action it = EXCLUDE \<and>
            (\<exists>n. str_lower w n \<in> root_excl P \<and> src it = src_root P @ [n])"
  proof (intro ballI impI)
    fix it
    assume it: "it \<in> set items" and rs: "reason it = ''root_dir''"
    from it items obtain x where x: "x \<in> set (items_of (walk P w [] t))" "it = fst x" by auto
    from walk_item_origin[OF x(1)] obtain r where r: "emitted_at P w r (Inr x)" by auto
    have "\<exists>n. r = [] \<and> str_lower w n \<in> root_excl P \<and> x = root_item P n"
      using r rs x(2)
      by (auto simp: emitted_at_def specific_item_def rec_item_def PlanItem_def
          split: if_splits dest: reason_file_item[OF sym])
    then show "action it = EXCLUDE \<and>
        (\<exists>n. str_lower w n \<in> root_excl P \<and> src it = src_root P @ [n])"
      using x(2) by (auto simp: root_item_def PlanItem_def)
  qed
  have deeper: "\<forall>rel t' X. rel \<noteq> [] \<longrightarrow> walk P w rel t' = walk (P\<lparr>root_excl := X\<rparr>) w rel t'"
    using walk_root_excl_irrelevant by blast
  have nested: "\<forall>q fs cs u. q \<noteq> [] \<and> reach P w [] t q = Some (Dir fs cs) \<and>
              \<not> is_under_specific P w q \<and>
              map_of cs d = Some u \<and> str_lower w d \<notin> rec_excl P \<longrightarrow>
            set (map fst (items_of (walk P w (q @ [d]) u))) \<subseteq> set items"
  proof (intro allI impI)
    fix q fs cs u
    assume a: "q \<noteq> [] \<and> reach P w [] t q = Some (Dir fs cs) \<and> \<not> is_under_specific P w q \<and>
              map_of cs d = Some u \<and> str_lower w d \<notin> rec_excl P"
    then have "kept P w q d" by (simp add: kept_def)
    with a have "reach P w [] t (q @ [d]) = Some u"
      by (simp add: reach_append)
    from reach_subset[OF this]
    have "set (items_of (walk P w (q @ [d]) u)) \<subseteq> set (items_of (walk P w [] t))"
      by (auto simp: set_items_of)
    then show "set (map fst (items_of (walk P w (q @ [d]) u))) \<subseteq> set items"
      unfolding items by auto
  qed
  from one inside only deeper nested show ?thesis by (intro conjI)
qed

text \<open>
  In the example \<open>node_modules\<close> is pruned at the root, and \<open>build/node_modules/n.js\<close>
  is planned.
\<close>

theorem root_dir_scoping_witness:
  "''Node_Modules'' \<in> set [''Node_Modules''] \<and>
   str_lower ex_world ''node_modules'' = str_lower ex_world ''Node_Modules'' \<and>
   plan ex_planner ex_world ex_tree = Inr ex_items \<and>
   wf_tree ex_tree \<and>
   filter (\<lambda>it. src it = [''srv'', ''app'', ''node_modules'']) ex_items =
     [PlanItem EXCLUDE [''srv'', ''app'', ''node_modules''] [''mirror'', ''node_modules'']
        ''root_dir''] \<and>
   list_all (\<lambda>it. \<not> strict_prefix [''srv'', ''app'', ''node_modules''] (src it)) ex_items \<and>
   PlanItem ADD [''srv'', ''app'', ''build'', ''node_modules'', ''n.js'']
        [''mirror'', ''build'', ''node_modules'', ''n.js''] ''missing'' \<in> set ex_items"
proof -
  have h3: "''Node_Modules'' \<in> set [''Node_Modules'']" by simp
  have h4: "str_lower ex_world ''node_modules'' = str_lower ex_world ''Node_Modules''"
    by (simp add: ascii_lower_char_def)
  note T = root_dir_scoping[OF ex_excl ex_planner_lower h3 h4 ex_plan]
  from T have "\<forall>fs cs. wf_tree ex_tree \<and> ex_tree = Dir fs cs \<and>
        \<not> is_under_specific ex_planner ex_world [] \<and>
        ''node_modules'' \<in> fst ` set cs \<longrightarrow>
      filter (\<lambda>it. src it = src_root ex_planner @ [''node_modules'']) ex_items =
        [PlanItem EXCLUDE (src_root ex_planner @ [''node_modules''])
           (dst_root ex_planner @ [''node_modules'']) ''root_dir'']"
    by (elim conjE)
  then have one: "filter (\<lambda>it. src it = [''srv'', ''app'', ''node_modules'']) ex_items =
     [PlanItem EXCLUDE [''srv'', ''app'', ''node_modules''] [''mirror'', ''node_modules'']
        ''root_dir'']"
    using ex_wf ex_not_specific_root by (simp add: ex_roots ex_tree_def)
  from T have "\<forall>it \<in> set ex_items. \<not> strict_prefix (src_root ex_planner @ [''node_modules'']) (src it)"
    by (elim conjE)
  then have inside: "list_all (\<lambda>it. \<not> strict_prefix [''srv'', ''app'', ''node_modules''] (src it)) ex_items"
    by (simp add: list_all_iff ex_roots)
  have nested: "PlanItem ADD [''srv'', ''app'', ''build'', ''node_modules'', ''n.js'']
        [''mirror'', ''build'', ''node_modules'', ''n.js''] ''missing'' \<in> set ex_items"
    by (simp add: ex_items_def)
  from h3 h4 ex_plan ex_wf one inside nested show ?thesis by (intro conjI)
qed

subsection \<open>C6\<close>

text \<open>
  Claim C6, as the code has it. Planning ends with the error \<open>source not found\<close>, and
  no item, exactly when the source root is found missing. When it ends with another
  error, that is an \<open>OSError\<close> which one of the \<open>exists()\<close> tests raised, on the
  source root or on a path under the destination root: a failing \<open>os.stat\<close> never
  ends it. When the root exists and no \<open>exists()\<close> test on a path under the
  destination root raises, planning gives the plan of the traversal. In a plan, every
  file of every directory the traversal arrives at (and that passes the path-prefix
  check) has its item, and an \<open>os.stat\<close> that fails on a file shows in its item:
  \<open>EXCLUDE\<close> with \<open>unreadable:\<close> and the error text for the source, \<open>UPDATE\<close> with
  \<open>dst unreadable:\<close> and the error text for an existing destination. Nothing is said
  of a subdirectory that \<open>os.walk\<close> does not list.
\<close>

theorem plan_fails_only_without_root:
  "(plan P w t = Inl (SourceNotFound (src_root P)) \<longleftrightarrow> src_root_exists w = Inr False) \<and>
   (\<forall>e. plan P w t = Inl (Raised e) \<longrightarrow>
      src_root_exists w = Inl e \<or> (\<exists>q f. dst_exists w (dst_root P @ q @ [f]) = Inl e)) \<and>
   (src_root_exists w = Inr True \<and>
    (\<forall>q f e. dst_exists w (dst_root P @ q @ [f]) \<noteq> Inl e) \<longrightarrow>
      plan P w t = Inr (map fst (items_of (walk P w [] t)))) \<and>
   (\<forall>items q fs cs f. plan P w t = Inr items \<and> reach P w [] t q = Some (Dir fs cs) \<and>
        \<not> is_under_specific P w q \<and> f \<in> set fs \<longrightarrow>
      (\<exists>x. file_item P w q f = Inr x \<and> fst x \<in> set items)) \<and>
   (\<forall>q f e. \<not> is_file_excluded P w f \<and> src_stat w (src_root P @ q @ [f]) = Inl e \<longrightarrow>
      file_item P w q f =
        Inr (PlanItem EXCLUDE (src_root P @ q @ [f]) (dst_root P @ q @ [f])
               (''unreadable: '' @ err_text e),
             [StatSrc (src_root P @ q @ [f])])) \<and>
   (\<forall>q f s e. \<not> is_file_excluded P w f \<and> src_stat w (src_root P @ q @ [f]) = Inr s \<and>
        dst_exists w (dst_root P @ q @ [f]) = Inr True \<and>
        dst_stat w (dst_root P @ q @ [f]) = Inl e \<longrightarrow>
      file_item P w q f =
        Inr (PlanItem UPDATE (src_root P @ q @ [f]) (dst_root P @ q @ [f])
               (''dst unreadable: '' @ err_text e),
             [StatSrc (src_root P @ q @ [f]), DstExists (dst_root P @ q @ [f]),
              StatDst (dst_root P @ q @ [f])]))"
proof -
  have a: "plan P w t = Inl (SourceNotFound (src_root P)) \<longleftrightarrow> src_root_exists w = Inr False"
    by (auto simp: plan_def plan_calls_def split: sum.splits if_splits)
  have b: "\<forall>e. plan P w t = Inl (Raised e) \<longrightarrow>
      src_root_exists w = Inl e \<or> (\<exists>q f. dst_exists w (dst_root P @ q @ [f]) = Inl e)"
    using plan_raised by blast
  have c: "src_root_exists w = Inr True \<and>
      (\<forall>q f e. dst_exists w (dst_root P @ q @ [f]) \<noteq> Inl e) \<longrightarrow>
      plan P w t = Inr (map fst (items_of (walk P w [] t)))"
    using plan_completes by blast
  have d: "\<forall>items q fs cs f. plan P w t = Inr items \<and> reach P w [] t q = Some (Dir fs cs) \<and>
        \<not> is_under_specific P w q \<and> f \<in> set fs \<longrightarrow>
      (\<exists>x. file_item P w q f = Inr x \<and> fst x \<in> set items)"
    using file_in_plan by blast
  have e: "\<forall>q f e. \<not> is_file_excluded P w f \<and> src_stat w (src_root P @ q @ [f]) = Inl e \<longrightarrow>
      file_item P w q f =
        Inr (PlanItem EXCLUDE (src_root P @ q @ [f]) (dst_root P @ q @ [f])
               (''unreadable: '' @ err_text e),
             [StatSrc (src_root P @ q @ [f])])"
    using file_item_unreadable by blast
  have f: "\<forall>q f s e. \<not> is_file_excluded P w f \<and> src_stat w (src_root P @ q @ [f]) = Inr s \<and>
        dst_exists w (dst_root P @ q @ [f]) = Inr True \<and>
        dst_stat w (dst_root P @ q @ [f]) = Inl e \<longrightarrow>
      file_item P w q f =
        Inr (PlanItem UPDATE (src_root P @ q @ [f]) (dst_root P @ q @ [f])
               (''dst unreadable: '' @ err_text e),
             [StatSrc (src_root P @ q @ [f]), DstExists (dst_root P @ q @ [f]),
              StatDst (dst_root P @ q @ [f])])"
    using file_item_dst_unreadable by blast
  from a b c d e f show ?thesis by (intro conjI)
qed

text \<open>
  In the example the root exists, no \<open>exists()\<close> raises and \<open>b.txt\<close> cannot be read:
  the plan is complete and shows the file as \<open>EXCLUDE\<close>.
\<close>

theorem plan_fails_only_without_root_witness:
  "src_root_exists ex_world = Inr True \<and>
   plan ex_planner ex_world ex_tree =
     Inr (map fst (items_of (walk ex_planner ex_world [] ex_tree))) \<and>
   \<not> is_file_excluded ex_planner ex_world ''b.txt'' \<and>
   src_stat ex_world (src_root ex_planner @ [] @ [''b.txt'']) = Inl (PermissionError ''denied'') \<and>
   file_item ex_planner ex_world [] ''b.txt'' =
     Inr (PlanItem EXCLUDE [''srv'', ''app'', ''b.txt''] [''mirror'', ''b.txt'']
            ''unreadable: denied'',
          [StatSrc [''srv'', ''app'', ''b.txt'']]) \<and>
   PlanItem EXCLUDE [''srv'', ''app'', ''b.txt''] [''mirror'', ''b.txt''] ''unreadable: denied''
     \<in> set ex_items"
proof -
  note T = plan_fails_only_without_root[of ex_planner ex_world ex_tree]
  have ex: "src_root_exists ex_world = Inr True" by (simp add: ex_world_def)
  have nr: "\<forall>q f e. dst_exists ex_world (dst_root ex_planner @ q @ [f]) \<noteq> Inl e"
    by (simp add: ex_world_def)
  have ne: "\<not> is_file_excluded ex_planner ex_world ''b.txt''"
    by (simp add: ex_patterns ascii_lower_char_def)
  have st: "src_stat ex_world (src_root ex_planner @ [] @ [''b.txt'']) = Inl (PermissionError ''denied'')"
    by (simp add: ex_world_def)
  from T ex nr have p: "plan ex_planner ex_world ex_tree =
      Inr (map fst (items_of (walk ex_planner ex_world [] ex_tree)))"
    by blast
  from T ne st have it: "file_item ex_planner ex_world [] ''b.txt'' =
      Inr (PlanItem EXCLUDE (src_root ex_planner @ [] @ [''b.txt''])
             (dst_root ex_planner @ [] @ [''b.txt''])
             (''unreadable: '' @ err_text (PermissionError ''denied'')),
           [StatSrc (src_root ex_planner @ [] @ [''b.txt''])])"
    by blast
  have r: "reach ex_planner ex_world [] ex_tree [] =
      Some (Dir [''a.txt'', ''b.txt'']
       [(''node_modules'', Dir [''x.js''] []),
        (''scripts'',
           Dir []
             [(''output'', Dir [''log.txt''] [(''logs'', Dir [''l.txt''] [])]),
              (''output2'', Dir [''keep.txt''] [])]),
        (''build'',
           Dir [''tmp.o'']
             [(''__PyCache__'', Dir [''c.pyc''] []),
              (''node_modules'', Dir [''n.js''] [])])])"
    by (simp add: ex_tree_def)
  from T have "\<forall>items q fs cs f. plan ex_planner ex_world ex_tree = Inr items \<and>
      reach ex_planner ex_world [] ex_tree q = Some (Dir fs cs) \<and>
      \<not> is_under_specific ex_planner ex_world q \<and> f \<in> set fs \<longrightarrow>
      (\<exists>x. file_item ex_planner ex_world q f = Inr x \<and> fst x \<in> set items)"
    by (elim conjE)
  from this[rule_format, OF conjI[OF ex_plan conjI[OF r conjI[OF ex_not_specific_root]]],
      of "''b.txt''"]
  have "\<exists>x. file_item ex_planner ex_world [] ''b.txt'' = Inr x \<and> fst x \<in> set ex_items"
    by simp
  with it have mem: "PlanItem EXCLUDE [''srv'', ''app'', ''b.txt''] [''mirror'', ''b.txt'']
      ''unreadable: denied'' \<in> set ex_items"
    by (auto simp: ex_roots)
  from ex p ne st it mem show ?thesis by (simp add: ex_roots)
qed

text \<open>
  The claim as it was stated has every unreadable entry marked in the plan. A
  subdirectory whose listing fails is dropped by \<open>os.walk\<close> without a word: here the
  root has nothing but such a directory, and the plan is empty.
\<close>

theorem unlisted_directory_counterexample:
  "plan ex_planner ex_world unlisted_tree = Inr []"
  unfolding plan_def plan_calls_def unlisted_tree_def ex_planner_eq
  by (simp add: walk.simps visit_def is_under_specific_def rel_str_def path_str_def
      partition_names_def ex_world_def ascii_lower_char_def fslash_def bslash_def)

subsection \<open>C7\<close>

text \<open>
  Claim C7 at the input the code gets wrong. Both files are planned as \<open>ADD\<close> and the
  apply goes through without error. Applying \<open>a.txt\<close> writes its temporary copy to
  \<open>a.txt.part\<close>, over the file the turn before has just put there, and renames it
  away: planning again, \<open>a.txt\<close> is skipped and \<open>a.txt.part\<close> is \<open>missing\<close> once
  more.
\<close>

theorem temp_name_collision:
  "plan (SyncPlanner ascii_lower part_cfg) (observe Map.empty ex_world) part_tree =
     Inr part_items \<and>
   to_apply part_items = part_items \<and>
   fst (apply_plan ex_world True (to_apply part_items) Map.empty) = None \<and>
   plan (SyncPlanner ascii_lower part_cfg)
     (observe (snd (apply_plan ex_world True (to_apply part_items) Map.empty)) ex_world)
     part_tree =
   Inr [PlanItem ADD [''srv'', ''app'', ''a.txt.part''] [''mirror'', ''a.txt.part''] ''missing'',
        PlanItem SKIP [''srv'', ''app'', ''a.txt''] [''mirror'', ''a.txt''] ''same size+mtime'']"
proof -
  have P: "SyncPlanner ascii_lower part_cfg =
     \<lparr>src_root = [''srv'', ''app''], dst_root = [''mirror''], root_excl = {}, rec_excl = {},
      planner_patterns = [], specific_excl = []\<rparr>"
    by (simp add: part_cfg_def SyncPlanner_def excludes_from_yaml_def)
  have p1: "plan (SyncPlanner ascii_lower part_cfg) (observe Map.empty ex_world) part_tree =
      Inr part_items"
    unfolding P plan_def plan_calls_def part_tree_def
    by (simp add: walk.simps visit_def is_under_specific_def partition_names_def file_item_def
        is_file_excluded_def decide_def observe_def path_exists_def node_at_def ex_world_def
        part_items_def PlanItem_def Let_def)
  have ta: "to_apply part_items = part_items"
    by (simp add: to_apply_def part_items_def PlanItem_def)
  have ok: "fst (apply_plan ex_world True (to_apply part_items) Map.empty) = None"
    unfolding ta by (simp add: part_items_def apply_eval ex_world_def)
  have f1: "snd (apply_plan ex_world True (to_apply part_items) Map.empty) [''mirror'', ''a.txt.part''] = None"
    unfolding ta by (simp add: part_items_def apply_eval ex_world_def)
  have f2: "snd (apply_plan ex_world True (to_apply part_items) Map.empty) [''mirror'', ''a.txt''] =
      Some (File ''hello'' 10 100)"
    unfolding ta by (simp add: part_items_def apply_eval ex_world_def)
  let ?f = "snd (apply_plan ex_world True (to_apply part_items) Map.empty)"
  have o1: "src_root_exists (observe ?f ex_world) = Inr True"
    and o0: "float_sub (observe ?f ex_world) = (\<lambda>a b. a - b)"
    and o2: "src_stat (observe ?f ex_world) [''srv'', ''app'', ''a.txt.part''] =
               Inr \<lparr>st_size = 3, st_atime = 20, st_mtime = 50\<rparr>"
    and o3: "src_stat (observe ?f ex_world) [''srv'', ''app'', ''a.txt''] =
               Inr \<lparr>st_size = 5, st_atime = 10, st_mtime = 100\<rparr>"
    by (simp_all add: observe_def ex_world_def)
  have o4: "dst_exists (observe ?f ex_world) [''mirror'', ''a.txt.part''] = Inr False"
    and o5: "dst_exists (observe ?f ex_world) [''mirror'', ''a.txt''] = Inr True"
    and o6: "dst_stat (observe ?f ex_world) [''mirror'', ''a.txt''] =
               Inr \<lparr>st_size = 5, st_atime = 10, st_mtime = 100\<rparr>"
    by (simp_all add: observe_def path_exists_def node_at_def f1 f2)
  have p2: "plan (SyncPlanner ascii_lower part_cfg) (observe ?f ex_world) part_tree =
   Inr [PlanItem ADD [''srv'', ''app'', ''a.txt.part''] [''mirror'', ''a.txt.part''] ''missing'',
        PlanItem SKIP [''srv'', ''app'', ''a.txt''] [''mirror'', ''a.txt''] ''same size+mtime'']"
    unfolding P plan_def plan_calls_def part_tree_def
    by (simp add: walk.simps visit_def is_under_specific_def partition_names_def file_item_def
        is_file_excluded_def decide_def o0 o1 o2 o3 o4 o5 o6 PlanItem_def Let_def)
  from p1 ta ok p2 show ?thesis by (intro conjI)
qed

subsection \<open>C8\<close>

text \<open>
  Claim C8. When the lowered file name matches one of the lowered patterns of the
  configuration (the name alone: the directory plays no part), the turn for the file
  leaves the item \<open>EXCLUDE\<close> with reason \<open>pattern\<close> and no call on the file system was
  made in it; the item is in every plan whose traversal arrives at a directory that
  lists the file and passes the path-prefix check; and in a whole traversal no
  \<open>os.stat\<close> and no \<open>exists\<close> is ever called on a path that ends in this name.
\<close>

theorem pattern_exclude_without_lookup:
  assumes P: "P = SyncPlanner (str_lower w) cfg"
    and pat: "pat \<in> set (file_patterns (excl cfg))"
    and m: "fnmatch w (str_lower w fname) (str_lower w pat)"
  shows "is_file_excluded P w fname \<and>
    file_item P w rel fname =
      Inr (PlanItem EXCLUDE (src_root P @ rel @ [fname]) (dst_root P @ rel @ [fname]) ''pattern'',
           []) \<and>
    (\<forall>t items fs cs. plan P w t = Inr items \<and> reach P w [] t rel = Some (Dir fs cs) \<and>
         \<not> is_under_specific P w rel \<and> fname \<in> set fs \<longrightarrow>
       PlanItem EXCLUDE (src_root P @ rel @ [fname]) (dst_root P @ rel @ [fname]) ''pattern''
         \<in> set items) \<and>
    (\<forall>t s c. s \<in> set (walk P w [] t) \<and> c \<in> set (step_calls s) \<longrightarrow> last (call_path c) \<noteq> fname)"
proof -
  let ?it = "PlanItem EXCLUDE (src_root P @ rel @ [fname]) (dst_root P @ rel @ [fname]) ''pattern''"
  have ex: "is_file_excluded P w fname"
    using pat m by (auto simp: is_file_excluded_def P SyncPlanner_def list_ex_iff)
  then have fi: "file_item P w rel fname = Inr (?it, [])"
    by (simp add: file_item_def Let_def)
  have inw: "\<forall>t items fs cs. plan P w t = Inr items \<and> reach P w [] t rel = Some (Dir fs cs) \<and>
         \<not> is_under_specific P w rel \<and> fname \<in> set fs \<longrightarrow> ?it \<in> set items"
  proof (intro allI impI)
    fix t items and fs :: "string list" and cs :: "(string \<times> tree) list"
    assume a: "plan P w t = Inr items \<and> reach P w [] t rel = Some (Dir fs cs) \<and>
         \<not> is_under_specific P w rel \<and> fname \<in> set fs"
    then have "file_item P w rel fname \<in> set (walk P w rel (Dir fs cs))"
      by (simp add: walk_open)
    moreover have "set (walk P w ([] @ rel) (Dir fs cs)) \<subseteq> set (walk P w [] t)"
      using a by (intro reach_subset) simp
    ultimately have "Inr (?it, []) \<in> set (walk P w [] t)"
      using fi by auto
    then have "(?it, []) \<in> set (items_of (walk P w [] t))"
      by (simp add: set_items_of)
    moreover have "items = map fst (items_of (walk P w [] t))"
      using a plan_items by blast
    ultimately show "?it \<in> set items" by force
  qed
  have nocall: "\<forall>t s c. s \<in> set (walk P w [] t) \<and> c \<in> set (step_calls s) \<longrightarrow>
      last (call_path c) \<noteq> fname"
  proof (intro allI impI)
    fix t s c
    assume a: "s \<in> set (walk P w [] t) \<and> c \<in> set (step_calls s)"
    then obtain r where "emitted_at P w r s"
      using walk_origin[of s P w "[]" t] by auto
    then have "\<not> is_file_excluded P w (last (call_path c))"
      using a emitted_calls by blast
    with ex show "last (call_path c) \<noteq> fname" by auto
  qed
  from ex fi inw nocall show ?thesis by (intro conjI)
qed

text \<open>In the example \<open>build/tmp.o\<close> matches the pattern \<open>*.O\<close>.\<close>

theorem pattern_exclude_without_lookup_witness:
  "''*.O'' \<in> set (file_patterns (excl ex_cfg)) \<and>
   fnmatch ex_world (str_lower ex_world ''tmp.o'') (str_lower ex_world ''*.O'') \<and>
   file_item ex_planner ex_world [''build''] ''tmp.o'' =
     Inr (PlanItem EXCLUDE [''srv'', ''app'', ''build'', ''tmp.o''] [''mirror'', ''build'', ''tmp.o'']
            ''pattern'', [])"
proof -
  have h1: "''*.O'' \<in> set (file_patterns (excl ex_cfg))"
    by (simp add: ex_cfg_def excludes_from_yaml_def)
  have h2: "fnmatch ex_world (str_lower ex_world ''tmp.o'') (str_lower ex_world ''*.O'')"
    by (simp add: ex_world_def ascii_lower_char_def)
  from pattern_exclude_without_lookup[OF ex_planner_lower h1 h2, of "[''build'']"] h1 h2
  show ?thesis by (simp add: ex_roots)
qed

subsection \<open>C9\<close>

text \<open>
  Claim C9 at two inputs the code gets wrong. In the first the disk fills up during the
  copy of \<open>keep.txt\<close>, an error that is no permission error, and the removal of the
  temporary file is then refused: the applier raises the permission error of the
  removal and \<open>main\<close> reports a permission or lock error. In the second the rename is
  refused, a permission error, and the removal of the temporary file then fails with an
  error of the device: \<open>main\<close> reports an I/O error. The exit status is 1 either way.
\<close>

theorem cleanup_error_changes_kind:
  "fst (copy_steps locked_world True
          (snd (mkdir_parents locked_world Map.empty (parent (dst keep_item))))
          (src keep_item) (temp_path (dst keep_item)) (dst keep_item)) =
     Some (OSError ''No space left on device'') \<and>
   fst (apply_plan locked_world True (to_apply [keep_item]) Map.empty) =
     Some (PermissionError ''Access is denied'') \<and>
   fst (main_apply locked_world [keep_item] Map.empty) =
     (''Copy aborted (permission/lock error): Access is denied'', 1) \<and>
   fst (copy_steps stuck_world True
          (snd (mkdir_parents stuck_world Map.empty (parent (dst keep_item))))
          (src keep_item) (temp_path (dst keep_item)) (dst keep_item)) =
     Some (PermissionError ''Access is denied'') \<and>
   fst (apply_plan stuck_world True (to_apply [keep_item]) Map.empty) =
     Some (OSError ''Input/output error'') \<and>
   fst (main_apply stuck_world [keep_item] Map.empty) =
     (''Copy aborted (I/O error): Input/output error'', 1)"
  by (simp add: main_apply_def to_apply_def keep_item_fields apply_eval locked_world_def
      full_disk_world_def stuck_world_def locked_dst_world_def ex_world_def)

subsection \<open>C10\<close>

text \<open>
  Claim C10, as the code has it. Every item of a plan has its source at some position
  below the source root and its destination at the same position below the destination
  root, for files and for pruned directories alike; for an \<open>ADD\<close> or \<open>UPDATE\<close> item
  the position is not the root itself. So whatever items of the plan the applier is
  given, in whatever world and from whatever state of the destination, and whether it
  ends with an error or without, a path it has changed lies strictly under the
  destination root, or it is the destination root or a directory above it that was not
  there and is a directory now (\<open>mkdir\<close> with \<open>parents\<close> makes the missing
  directories on the way to the root too).
\<close>

theorem plan_path_correspondence:
  assumes "plan P w t = Inr items"
  shows "(\<forall>it \<in> set items. \<exists>rel. src it = src_root P @ rel \<and> dst it = dst_root P @ rel \<and>
            (action it = ADD \<or> action it = UPDATE \<longrightarrow>
               rel \<noteq> [] \<and> strict_prefix (dst_root P) (dst it) \<and>
               strict_prefix (dst_root P) (temp_path (dst it)) \<and>
               prefix (dst_root P) (parent (dst it)))) \<and>
         (\<forall>w' pm ys f r f' x. set ys \<subseteq> set items \<and> apply_plan w' pm ys f = (r, f') \<and>
              f' x \<noteq> f x \<longrightarrow>
            strict_prefix (dst_root P) x \<or>
            (prefix x (dst_root P) \<and> f x = None \<and> f' x = Some Directory))"
proof -
  have items: "\<forall>it \<in> set items. \<exists>rel. src it = src_root P @ rel \<and> dst it = dst_root P @ rel \<and>
            (action it = ADD \<or> action it = UPDATE \<longrightarrow>
               rel \<noteq> [] \<and> strict_prefix (dst_root P) (dst it) \<and>
               strict_prefix (dst_root P) (temp_path (dst it)) \<and>
               prefix (dst_root P) (parent (dst it)))"
  proof
    fix it assume it: "it \<in> set items"
    from plan_item_correspondence[OF assms it] obtain rel where
      rel: "src it = src_root P @ rel" "dst it = dst_root P @ rel"
        "action it = ADD \<or> action it = UPDATE \<longrightarrow> rel \<noteq> []"
      by blast
    have "strict_prefix (dst_root P) (dst it) \<and>
          strict_prefix (dst_root P) (temp_path (dst it)) \<and>
          prefix (dst_root P) (parent (dst it))" if "rel \<noteq> []"
    proof -
      from that obtain b l where bl: "rel = b @ [l]" by (metis rev_exhaust)
      have "parent (dst it) = dst_root P @ b"
        by (simp add: rel(2) bl parent_def butlast_append)
      moreover have "temp_path (dst it) = dst_root P @ b @ [l @ ''.part'']"
        by (simp add: rel(2) bl temp_path_def butlast_append)
      ultimately show ?thesis using rel(2) that by (auto simp: strict_prefix_def)
    qed
    with rel show "\<exists>rel. src it = src_root P @ rel \<and> dst it = dst_root P @ rel \<and>
            (action it = ADD \<or> action it = UPDATE \<longrightarrow>
               rel \<noteq> [] \<and> strict_prefix (dst_root P) (dst it) \<and>
               strict_prefix (dst_root P) (temp_path (dst it)) \<and>
               prefix (dst_root P) (parent (dst it)))"
      by (intro exI[of _ rel]) auto
  qed
  have writes: "\<forall>w' pm ys f r f' x. set ys \<subseteq> set items \<and> apply_plan w' pm ys f = (r, f') \<and>
              f' x \<noteq> f x \<longrightarrow>
            strict_prefix (dst_root P) x \<or>
            (prefix x (dst_root P) \<and> f x = None \<and> f' x = Some Directory)"
  proof (intro allI impI)
    fix w' pm ys f r f' x
    assume a: "set ys \<subseteq> set items \<and> apply_plan w' pm ys f = (r, f') \<and> f' x \<noteq> f x"
    have "\<forall>y \<in> set ys. action y = ADD \<or> action y = UPDATE \<longrightarrow>
           (\<exists>rel. rel \<noteq> [] \<and> dst y = dst_root P @ rel)"
    proof (intro ballI impI)
      fix y assume y: "y \<in> set ys" and act: "action y = ADD \<or> action y = UPDATE"
      from y a have "y \<in> set items" by auto
      from plan_item_correspondence[OF assms this] act
      show "\<exists>rel. rel \<noteq> [] \<and> dst y = dst_root P @ rel" by auto
    qed
    with a show "strict_prefix (dst_root P) x \<or>
            (prefix x (dst_root P) \<and> f x = None \<and> f' x = Some Directory)"
      using apply_plan_changes[of w' pm ys f r f' x "dst_root P"] by blast
  qed
  from items writes show ?thesis by (rule conjI)
qed

text \<open>
  In the example the apply of the two \<open>ADD\<close> items into an empty file system writes
  \<open>keep.txt\<close>, under the destination root, and makes the root \<open>mirror\<close> itself.
\<close>

theorem plan_path_correspondence_witness:
  "plan ex_planner ex_world ex_tree = Inr ex_items \<and>
   set (to_apply ex_items) \<subseteq> set ex_items \<and>
   snd (apply_plan ex_world True (to_apply ex_items) Map.empty)
     [''mirror'', ''scripts'', ''output2'', ''keep.txt''] = Some (File ''abc'' 20 50) \<and>
   strict_prefix (dst_root ex_planner) [''mirror'', ''scripts'', ''output2'', ''keep.txt''] \<and>
   snd (apply_plan ex_world True (to_apply ex_items) Map.empty) [''mirror''] = Some Directory \<and>
   prefix [''mirror''] (dst_root ex_planner)"
proof -
  let ?ys = "to_apply ex_items"
  let ?f' = "snd (apply_plan ex_world True ?ys Map.empty)"
  let ?k = "[''mirror'', ''scripts'', ''output2'', ''keep.txt'']"
  have ta: "?ys =
     [PlanItem ADD [''srv'', ''app'', ''scripts'', ''output2'', ''keep.txt'']
        [''mirror'', ''scripts'', ''output2'', ''keep.txt''] ''missing'',
      PlanItem ADD [''srv'', ''app'', ''build'', ''node_modules'', ''n.js'']
        [''mirror'', ''build'', ''node_modules'', ''n.js''] ''missing'']"
    by (simp add: to_apply_def ex_items_def PlanItem_def)
  have sub: "set ?ys \<subseteq> set ex_items" by (simp add: to_apply_def)
  have k: "?f' ?k = Some (File ''abc'' 20 50)"
    unfolding ta by (simp add: apply_eval ex_world_def)
  have m: "?f' [''mirror''] = Some Directory"
    unfolding ta by (simp add: apply_eval ex_world_def)
  note T = plan_path_correspondence[OF ex_plan]
  from T have W: "\<forall>w' pm ys f r f' x. set ys \<subseteq> set ex_items \<and> apply_plan w' pm ys f = (r, f') \<and>
              f' x \<noteq> f x \<longrightarrow>
            strict_prefix (dst_root ex_planner) x \<or>
            (prefix x (dst_root ex_planner) \<and> f x = None \<and> f' x = Some Directory)"
    by (elim conjE)
  have hk: "set ?ys \<subseteq> set ex_items \<and>
      apply_plan ex_world True ?ys Map.empty = (fst (apply_plan ex_world True ?ys Map.empty), ?f') \<and>
      ?f' ?k \<noteq> Map.empty ?k"
    using sub k by simp
  have "strict_prefix (dst_root ex_planner) ?k \<or>
        (prefix ?k (dst_root ex_planner) \<and> Map.empty ?k = None \<and> ?f' ?k = Some Directory)"
    using W[rule_format, OF hk] by simp
  with k have sk: "strict_prefix (dst_root ex_planner) ?k" by simp
  have hm: "set ?ys \<subseteq> set ex_items \<and>
      apply_plan ex_world True ?ys Map.empty = (fst (apply_plan ex_world True ?ys Map.empty), ?f') \<and>
      ?f' [''mirror''] \<noteq> Map.empty [''mirror'']"
    using sub m by simp
  have "strict_prefix (dst_root ex_planner) [''mirror''] \<or>
        (prefix [''mirror''] (dst_root ex_planner) \<and> Map.empty [''mirror''] = None \<and>
         ?f' [''mirror''] = Some Directory)"
    using W[rule_format, OF hm] by simp
  then have pm: "prefix [''mirror''] (dst_root ex_planner)"
    by (auto simp: ex_roots strict_prefix_def)
  from ex_plan sub k sk m pm show ?thesis by (intro conjI)
qed

text \<open>
  The claim as it was stated has every path the applier writes under the destination
  root. Here the destination root is \<open>x/mirror\<close> and \<open>x\<close> is not there: the one
  item of the plan is applied, and \<open>x\<close>, which is not under the root, is a directory
  afterwards.
\<close>

theorem missing_ancestor_counterexample:
  "plan (SyncPlanner ascii_lower deep_cfg) (observe Map.empty ex_world) single_tree =
     Inr [PlanItem ADD [''srv'', ''app'', ''a.txt''] [''x'', ''mirror'', ''a.txt''] ''missing''] \<and>
   dst_root (SyncPlanner ascii_lower deep_cfg) = [''x'', ''mirror''] \<and>
   Map.empty [''x''] = (None :: node option) \<and>
   snd (apply_plan ex_world True
          [PlanItem ADD [''srv'', ''app'', ''a.txt''] [''x'', ''mirror'', ''a.txt''] ''missing'']
          Map.empty) [''x''] = Some Directory \<and>
   \<not> prefix [''x'', ''mirror''] [''x'']"
proof -
  have P: "SyncPlanner ascii_lower deep_cfg =
     \<lparr>src_root = [''srv'', ''app''], dst_root = [''x'', ''mirror''], root_excl = {}, rec_excl = {},
      planner_patterns = [], specific_excl = []\<rparr>"
    by (simp add: deep_cfg_def SyncPlanner_def excludes_from_yaml_def)
  have p: "plan (SyncPlanner ascii_lower deep_cfg) (observe Map.empty ex_world) single_tree =
     Inr [PlanItem ADD [''srv'', ''app'', ''a.txt''] [''x'', ''mirror'', ''a.txt''] ''missing'']"
    unfolding P plan_def plan_calls_def single_tree_def
    by (simp add: walk.simps visit_def is_under_specific_def partition_names_def file_item_def
        is_file_excluded_def decide_def observe_def path_exists_def node_at_def ex_world_def
        PlanItem_def Let_def)
  have r: "dst_root (SyncPlanner ascii_lower deep_cfg) = [''x'', ''mirror'']" by (simp add: P)
  have a: "snd (apply_plan ex_world True
          [PlanItem ADD [''srv'', ''app'', ''a.txt''] [''x'', ''mirror'', ''a.txt''] ''missing'']
          Map.empty) [''x''] = Some Directory"
    by (simp add: apply_eval ex_world_def)
  from p r a show ?thesis by simp
qed

end
